theory Spec2Isabelle
  imports Main "HOL-Library.Multiset" "HOL-Library.Word"
begin

section \<open>Comparison functions (include/defs.h)\<close>

text \<open>
  \<^verbatim>\<open>typedef int (*cmp_fn)(const void *, const void *)\<close>: zero on equality, positive when
  the first argument is the greater one, negative when it is the smaller one. Every
  container holds one. \<open>cmp_total\<close> says that the function orders the items totally, up
  to the items it calls equal: swapping the arguments swaps the sign, and \<open>\<le>\<close> is
  transitive.
\<close>

type_synonym 'a cmp_fn = "'a \<Rightarrow> 'a \<Rightarrow> int"

definition cmp_total :: "'a cmp_fn \<Rightarrow> bool" where
  "cmp_total cmpfn \<longleftrightarrow>
     (\<forall>a b. (cmpfn a b < 0) = (cmpfn b a > 0))
   \<and> (\<forall>a b c. cmpfn a b \<le> 0 \<longrightarrow> cmpfn b c \<le> 0 \<longrightarrow> cmpfn a c \<le> 0)"

lemma cmp_total_flip: "cmp_total c \<Longrightarrow> \<not> c x y < 0 \<Longrightarrow> c y x \<le> 0"
  unfolding cmp_total_def by (metis not_less)

lemma cmp_total_trans: "cmp_total c \<Longrightarrow> c x y \<le> 0 \<Longrightarrow> c y z \<le> 0 \<Longrightarrow> c x z \<le> 0"
  unfolding cmp_total_def by blast

lemma cmp_total_int: "cmp_total (\<lambda>a b :: int. a - b)"
  by (simp add: cmp_total_def)

section \<open>The index (src/adt/index.c)\<close>

text \<open>
  \<^verbatim>\<open>struct index { map_t *terms; set_t *doc_names; size_t number_of_docs; size_t number_of_terms; }\<close>.
  The two pointers are addresses (\<open>None\<close> is \<open>NULL\<close>), the counters are naturals.
\<close>

record index_t =
  terms :: "nat option"
  doc_names :: "nat option"
  number_of_docs :: nat
  number_of_terms :: nat

text \<open>
  \<^verbatim>\<open>index_create\<close> allocates the struct and returns it; the body holds a TODO where the
  fields would be set up, so the fields keep whatever the allocated memory held, which is
  the argument here.
\<close>

definition index_create :: "index_t \<Rightarrow> index_t" where
  "index_create uninitialised = uninitialised"

text \<open>
  \<^verbatim>\<open>index_document\<close> creates a list iterator over the terms and returns 0; everything else in
  its body is commented out. The index is not written to. The result is the status and the
  index after the call.
\<close>

definition index_document :: "index_t \<Rightarrow> string \<Rightarrow> string list \<Rightarrow> int \<times> index_t" where
  "index_document index doc_name words = (0, index)"

text \<open>
  \<^verbatim>\<open>index_query\<close> prints the tokens (a debug helper that only reads the list) and returns
  \<open>NULL\<close>; it never writes to \<open>errmsg\<close>. The result is the returned list of
  \<open>(doc_name, score)\<close> results (\<open>None\<close> is \<open>NULL\<close>) and the error buffer after the call.
  Scores are compared only, so they are integers here.
\<close>

type_synonym query_result_t = "string \<times> int"

definition index_query ::
  "index_t \<Rightarrow> string list \<Rightarrow> string \<Rightarrow> query_result_t list option \<times> string" where
  "index_query index query_tokens errmsg = (None, errmsg)"

text \<open>\<^verbatim>\<open>index_stat\<close> stores 0 in both \<open>*n_docs\<close> and \<open>*n_terms\<close>.\<close>

definition index_stat :: "index_t \<Rightarrow> nat \<times> nat" where
  "index_stat index = (0, 0)"

section \<open>Results for the index\<close>

text \<open>
  C1: for a well-formed query, index_query should return a non-NULL list sorted by score
  descending. The code returns NULL for the well-formed one-term query \<open>dog\<close>, on every
  index.
\<close>

theorem index_query_wellformed_returns_NULL:
  "fst (index_query index [''dog''] errbuf) = None"
  by (simp add: index_query_def)

text \<open>
  C2: for a malformed query, index_query should return NULL and leave a non-empty diagnostic
  in errbuf, and \<open>(a & b) | !c\<close> should parse. The code leaves an empty (zeroed) errbuf
  empty on the malformed \<open>term &\<close>, and returns NULL on \<open>(a & b) | !c\<close> as well.
\<close>

theorem index_query_malformed_errbuf_stays_empty:
  "index_query index [''term'', ''&''] [] = (None, [])
   \<and> fst (index_query index [''('', ''a'', ''&'', ''b'', '')'', ''|'', ''!'', ''c''] []) = None"
  by (simp add: index_query_def)

text \<open>
  C3: the query \<open>A | !A\<close> should return every indexed document. After indexing one document
  that contains \<open>cat\<close>, the code returns NULL for \<open>cat | !cat\<close>, not a list holding the
  document.
\<close>

theorem index_query_or_not_returns_NULL:
  "fst (index_query (snd (index_document (index_create u) ''doc1'' [''cat'']))
          [''cat'', ''|'', ''!'', ''cat''] []) = None"
  by (simp add: index_query_def)

text \<open>
  C4: after doc1 = [cat, dog] and doc2 = [dog, dog, bird] on a fresh index, index_stat should
  report 2 documents and 3 terms. The code reports 0 and 0.
\<close>

theorem index_stat_two_documents:
  "index_stat (snd (index_document
        (snd (index_document (index_create u) ''doc1'' [''cat'', ''dog'']))
        ''doc2'' [''dog'', ''dog'', ''bird''])) = (0, 0)"
  by (simp add: index_stat_def)

text \<open>
  C5: each index_document should raise the reported number of documents by one. In the code
  the reported number of documents after a call equals the one before it.
\<close>

theorem index_document_n_docs_unchanged:
  "fst (index_stat (snd (index_document index ''doc1'' [''cat'', ''dog''])))
     = fst (index_stat index)"
  by (simp add: index_stat_def)

section \<open>The doubly linked list (src/adt/doublylinkedlist.c)\<close>

text \<open>
  \<^verbatim>\<open>struct list { lnode_t *leftmost; lnode_t *rightmost; size_t length; cmp_fn cmpfn; }\<close>.
  The chain of nodes from \<open>leftmost\<close> along the \<open>right\<close> pointers is the list of their
  items; \<open>rightmost\<close> and the \<open>left\<close> pointers are the same chain read backwards. The
  \<open>length\<close> field is kept apart from the chain, as in the struct: \<^verbatim>\<open>list_sort\<close> reads
  the field, and \<^verbatim>\<open>list_remove\<close> unlinks a node without decrementing it, so the two can
  differ.
\<close>

record 'a list_t =
  l_items :: "'a list"
  l_length :: nat
  l_cmpfn :: "'a cmp_fn"

text \<open>
  \<^verbatim>\<open>merge(a, b, cmpfn)\<close> reads \<open>a->item\<close> and \<open>b->item\<close> first, so both chains must be
  non-empty (\<open>None\<close> is the null dereference). It takes the smaller head, \<open>b\<close>'s on a tie,
  then \<open>merge_loop\<close> is its while loop followed by the append of the chain that is left.
\<close>

fun merge_loop :: "'a list \<Rightarrow> 'a list \<Rightarrow> 'a cmp_fn \<Rightarrow> 'a list" where
  "merge_loop (x # a) (y # b) cmpfn =
     (if cmpfn x y < 0 then x # merge_loop a (y # b) cmpfn
      else y # merge_loop (x # a) b cmpfn)"
| "merge_loop (x # a) [] cmpfn = x # a"
| "merge_loop [] b cmpfn = b"

definition merge :: "'a list \<Rightarrow> 'a list \<Rightarrow> 'a cmp_fn \<Rightarrow> 'a list option" where
  "merge a b cmpfn =
     (case (a, b) of
        (x # a', y # b') \<Rightarrow>
          Some (if cmpfn x y < 0 then x # merge_loop a' b cmpfn
                else y # merge_loop a b' cmpfn)
      | _ \<Rightarrow> None)"

text \<open>
  \<^verbatim>\<open>splitlist(leftmost)\<close>: \<open>slow\<close> starts at the first node and \<open>fast\<close> at the second;
  while \<open>fast\<close> and \<open>fast->right\<close> are not null, \<open>slow\<close> moves one node and \<open>fast\<close> two.
  The chain is cut after \<open>slow\<close>. The loop carries the nodes left of \<open>slow\<close>, the chain
  from \<open>slow\<close> and the chain from \<open>fast\<close>; the result is the two halves.
\<close>

fun splitlist_loop :: "'a list \<Rightarrow> 'a list \<Rightarrow> 'a list \<Rightarrow> ('a list \<times> 'a list) option" where
  "splitlist_loop passed (s # slow) (f # f' # fast) = splitlist_loop (passed @ [s]) slow fast"
| "splitlist_loop passed (s # slow) fast = Some (passed @ [s], slow)"
| "splitlist_loop passed [] fast = None"

definition splitlist :: "'a list \<Rightarrow> ('a list \<times> 'a list) option" where
  "splitlist leftmost =
     (case leftmost of [] \<Rightarrow> None | x # right \<Rightarrow> splitlist_loop [] leftmost right)"

lemma splitlist_loop_append:
  "splitlist_loop passed slow fast = Some (a, b) \<Longrightarrow> a @ b = passed @ slow"
  by (induction passed slow fast rule: splitlist_loop.induct) auto

lemma splitlist_loop_nonempty:
  "splitlist_loop passed slow fast = Some (a, b) \<Longrightarrow> length fast < length slow
     \<Longrightarrow> 2 \<le> length slow \<Longrightarrow> a \<noteq> [] \<and> b \<noteq> []"
  by (induction passed slow fast rule: splitlist_loop.induct) auto

lemma splitlist_loop_Some:
  "slow \<noteq> [] \<Longrightarrow> length fast < length slow
     \<Longrightarrow> \<exists>a b. splitlist_loop passed slow fast = Some (a, b)"
  by (induction passed slow fast rule: splitlist_loop.induct) fastforce+

lemma splitlist_shorter:
  assumes "splitlist (x # y # zs) = Some (a, b)"
  shows "length a < Suc (Suc (length zs))" and "length b < Suc (Suc (length zs))"
    and "a @ b = x # y # zs" and "a \<noteq> []" and "b \<noteq> []"
proof -
  from assms have s: "splitlist_loop [] (x # y # zs) (y # zs) = Some (a, b)"
    by (simp add: splitlist_def)
  from splitlist_loop_append [OF s] show ab: "a @ b = x # y # zs" by simp
  from splitlist_loop_nonempty [OF s] show ne: "a \<noteq> []" "b \<noteq> []" by simp_all
  from ab have "length a + length b = Suc (Suc (length zs))"
    by (metis length_append length_Cons)
  with ne show "length a < Suc (Suc (length zs))" "length b < Suc (Suc (length zs))"
    by (cases a; cases b; simp)+
qed

text \<open>
  \<^verbatim>\<open>mergesort_(leftmost, cmpfn)\<close> reads \<open>leftmost->right\<close> first: a null \<open>leftmost\<close> is a null
  dereference. A single node is returned as it is; a longer chain is split, both halves are
  sorted and merged. (The name drops the source's trailing underscore.)
\<close>

function mergesort :: "'a list \<Rightarrow> 'a cmp_fn \<Rightarrow> 'a list option" where
  "mergesort [] cmpfn = None"
| "mergesort [x] cmpfn = Some [x]"
| "mergesort (x # y # zs) cmpfn =
     (case splitlist (x # y # zs) of
        None \<Rightarrow> None
      | Some (leftmost, half) \<Rightarrow>
          (case mergesort leftmost cmpfn of
             None \<Rightarrow> None
           | Some leftmost' \<Rightarrow>
               (case mergesort half cmpfn of
                  None \<Rightarrow> None
                | Some half' \<Rightarrow> merge leftmost' half' cmpfn)))"
  by pat_completeness auto
termination
  by (relation "measure (\<lambda>(xs, c). length xs)") (auto dest: splitlist_shorter(1,2))

text \<open>
  \<^verbatim>\<open>list_sort(list)\<close> returns at once when the \<open>length\<close> field is below 2. Otherwise it
  sorts the chain from \<open>leftmost\<close>, then walks the sorted chain to set every \<open>left\<close> pointer
  and \<open>rightmost\<close>: the chain read backwards, which the list of items already determines.
\<close>

definition list_sort :: "'a list_t \<Rightarrow> 'a list_t option" where
  "list_sort list =
     (if l_length list < 2 then Some list
      else case mergesort (l_items list) (l_cmpfn list) of
             None \<Rightarrow> None
           | Some sorted_items \<Rightarrow> Some (list\<lparr>l_items := sorted_items\<rparr>))"

subsection \<open>Sorting is correct\<close>

abbreviation ascending :: "'a cmp_fn \<Rightarrow> 'a list \<Rightarrow> bool" where
  "ascending c \<equiv> sorted_wrt (\<lambda>a b. c a b \<le> 0)"

lemma set_merge_loop: "set (merge_loop a b c) = set a \<union> set b"
  by (induction a b c rule: merge_loop.induct) auto

lemma mset_merge_loop: "mset (merge_loop a b c) = mset a + mset b"
  by (induction a b c rule: merge_loop.induct) auto

lemma ascending_merge_loop:
  "cmp_total c \<Longrightarrow> ascending c a \<Longrightarrow> ascending c b \<Longrightarrow> ascending c (merge_loop a b c)"
proof (induction a b c rule: merge_loop.induct)
  case (1 x a y b cmpfn)
  show ?case
  proof (cases "cmpfn x y < 0")
    case True
    have "\<forall>z \<in> set (y # b). cmpfn x z \<le> 0"
      using 1(3,5) True by (auto intro: cmp_total_trans [of cmpfn x y])
    with 1 True show ?thesis by (auto simp: set_merge_loop)
  next
    case False
    then have yx: "cmpfn y x \<le> 0" using 1(3) by (rule cmp_total_flip [rotated])
    have "\<forall>z \<in> set (x # a). cmpfn y z \<le> 0"
      using 1(3,4) yx by (auto intro: cmp_total_trans [of cmpfn y x])
    with 1 False show ?thesis by (auto simp: set_merge_loop)
  qed
qed simp_all

lemma merge_nonempty: "a \<noteq> [] \<Longrightarrow> b \<noteq> [] \<Longrightarrow> merge a b c = Some (merge_loop a b c)"
  by (auto simp: merge_def split: list.splits)

lemma mergesort_correct:
  "cmp_total c \<Longrightarrow> xs \<noteq> [] \<Longrightarrow>
     \<exists>ys. mergesort xs c = Some ys \<and> ascending c ys \<and> mset ys = mset xs"
proof (induction xs c rule: mergesort.induct)
  case (1 cmpfn)
  then show ?case by simp
next
  case (2 x cmpfn)
  then show ?case by simp
next
  case (3 x y zs cmpfn)
  have "\<exists>a b. splitlist_loop [] (x # y # zs) (y # zs) = Some (a, b)"
    by (rule splitlist_loop_Some) simp_all
  then obtain a b where sp: "splitlist (x # y # zs) = Some (a, b)"
    by (auto simp: splitlist_def)
  note sh = splitlist_shorter [OF sp]
  from 3(1) [OF sp refl 3(3) sh(4)] obtain a' where
    a': "mergesort a cmpfn = Some a'" "ascending cmpfn a'" "mset a' = mset a" by blast
  from 3(2) [OF sp refl a'(1) 3(3) sh(5)] obtain b' where
    b': "mergesort b cmpfn = Some b'" "ascending cmpfn b'" "mset b' = mset b" by blast
  have ne: "a' \<noteq> []" "b' \<noteq> []"
    using a'(3) b'(3) sh(4,5) by (metis mset_zero_iff)+
  have m: "merge a' b' cmpfn = Some (merge_loop a' b' cmpfn)"
    using ne by (rule merge_nonempty)
  have "mset (merge_loop a' b' cmpfn) = mset (a @ b)"
    by (simp add: mset_merge_loop a'(3) b'(3))
  then have ms: "mset (merge_loop a' b' cmpfn) = mset (x # y # zs)"
    by (simp only: sh(3))
  have "ascending cmpfn (merge_loop a' b' cmpfn)"
    using 3(3) a'(2) b'(2) by (rule ascending_merge_loop)
  with sp a'(1) b'(1) m ms show ?case by simp
qed

text \<open>
  When the \<open>length\<close> field is the number of nodes, \<^verbatim>\<open>list_sort\<close> returns, and afterwards
  the items are in ascending order by the comparison function, the multiset of items and
  the length are the ones before the call, and a list with fewer than two items is
  unchanged.
\<close>

lemma list_sort_sorts:
  assumes "cmp_total (l_cmpfn list)" and "l_length list = length (l_items list)"
  shows "\<exists>list'. list_sort list = Some list'
           \<and> sorted_wrt (\<lambda>a b. l_cmpfn list a b \<le> 0) (l_items list')
           \<and> mset (l_items list') = mset (l_items list)
           \<and> l_length list' = l_length list
           \<and> l_cmpfn list' = l_cmpfn list
           \<and> (length (l_items list) < 2 \<longrightarrow> list' = list)"
proof (cases "l_length list < 2")
  case True
  then have "length (l_items list) < 2" using assms(2) by simp
  then have "ascending (l_cmpfn list) (l_items list)"
    by (cases "l_items list" rule: remdups_adj.cases) simp_all
  with True show ?thesis by (simp add: list_sort_def)
next
  case False
  then have "l_items list \<noteq> []" using assms(2) by auto
  from mergesort_correct [OF assms(1) this] obtain ys where
    "mergesort (l_items list) (l_cmpfn list) = Some ys"
    "ascending (l_cmpfn list) ys" "mset ys = mset (l_items list)" by blast
  with False assms(2) show ?thesis by (simp add: list_sort_def)
qed

section \<open>The tokenizer (src/tokenize.c)\<close>

text \<open>
  \<^verbatim>\<open>tokenize_string\<close> allocates: \<^verbatim>\<open>strdup\<close> for every token, and a list node in
  \<^verbatim>\<open>list_addlast\<close>. Either allocation can fail, and the function has an error path for it.
  The memory it works in is explicit: \<open>mem\<close> holds the strings that are allocated (by
  address) and not freed, addresses from \<open>brk\<close> upwards have never been handed out, and
  \<open>allocs\<close> lists the outcomes of the allocations to come (\<open>False\<close>: \<open>malloc\<close> returns
  \<open>NULL\<close>); past its end every allocation succeeds. Characters are the \<open>int\<close> values the
  code passes to the three callbacks.
\<close>

record world =
  mem :: "nat \<rightharpoonup> int list"
  brk :: nat
  allocs :: "bool list"

text \<open>One allocation: its outcome, and the memory with that outcome consumed.\<close>

definition malloc_ok :: "world \<Rightarrow> bool \<times> world" where
  "malloc_ok w = (case allocs w of [] \<Rightarrow> (True, w) | ok # rest \<Rightarrow> (ok, w\<lparr>allocs := rest\<rparr>))"

text \<open>
  \<^verbatim>\<open>strdup(base)\<close> copies the C string at \<open>base\<close>, which ends at the first NUL, to a fresh
  address. \<^verbatim>\<open>free(p)\<close> releases the string at \<open>p\<close>.
\<close>

definition strdup :: "world \<Rightarrow> int list \<Rightarrow> nat option \<times> world" where
  "strdup w s =
     (case malloc_ok w of
        (False, w') \<Rightarrow> (None, w')
      | (True, w') \<Rightarrow>
          (Some (brk w'), w'\<lparr>mem := (mem w')(brk w' \<mapsto> takeWhile (\<lambda>c. c \<noteq> 0) s), brk := Suc (brk w')\<rparr>))"

definition free :: "world \<Rightarrow> nat \<Rightarrow> world" where
  "free w p = w\<lparr>mem := (mem w)(p := None)\<rparr>"

text \<open>
  The list operations the tokenizer calls. \<^verbatim>\<open>list_addlast\<close> returns -1 when its node cannot
  be allocated and leaves the list alone; otherwise it links the node last and increments
  \<open>length\<close>. \<^verbatim>\<open>list_poplast\<close> panics when \<open>length\<close> is 0, then reads \<open>rightmost->item\<close>
  (a null dereference on an empty chain), unlinks the last node and decrements \<open>length\<close>;
  \<open>None\<close> stands for both failures.
\<close>

definition list_length :: "'a list_t \<Rightarrow> nat" where
  "list_length list = l_length list"

definition list_addlast :: "world \<Rightarrow> 'a list_t \<Rightarrow> 'a \<Rightarrow> int \<times> world \<times> 'a list_t" where
  "list_addlast w list item =
     (case malloc_ok w of
        (False, w') \<Rightarrow> (- 1, w', list)
      | (True, w') \<Rightarrow>
          (0, w', list\<lparr>l_items := l_items list @ [item], l_length := l_length list + 1\<rparr>))"

definition list_poplast :: "'a list_t \<Rightarrow> ('a \<times> 'a list_t) option" where
  "list_poplast list =
     (if l_length list = 0 then None
      else if l_items list = [] then None
      else Some (last (l_items list),
                 list\<lparr>l_items := butlast (l_items list), l_length := l_length list - 1\<rparr>))"

text \<open>
  \<^verbatim>\<open>append_token_dup(list, base, head, min_token_len, offset)\<close> writes the NUL at \<open>head\<close>
  and, when \<open>offset\<close> reaches \<open>min_token_len\<close>, appends a copy of the token to the list. The
  characters from \<open>base\<close> up to \<open>head\<close> are the argument \<open>base\<close> here. When the node cannot
  be allocated, the copy is freed.
\<close>

definition append_token_dup ::
  "world \<Rightarrow> nat list_t \<Rightarrow> int list \<Rightarrow> nat \<Rightarrow> nat \<Rightarrow> int \<times> world \<times> nat list_t" where
  "append_token_dup w list base min_token_len offset =
     (if offset \<ge> min_token_len then
        (case strdup w base of
           (None, w') \<Rightarrow> (- 1, w', list)
         | (Some cpy, w') \<Rightarrow>
             (case list_addlast w' list cpy of
                (status, w'', list') \<Rightarrow>
                  if status < 0 then (- 1, free w'' cpy, list') else (0, w'', list')))
      else (0, w, list))"

text \<open>
  Storing an \<open>int\<close> into the \<open>char\<close> buffer keeps its low eight bits (as a signed char).
  \<^verbatim>\<open>TOKEN_SIZE_MAX\<close> is 1024, and \<open>offset_lim\<close> leaves room for the NUL and one character.
\<close>

definition to_char :: "int \<Rightarrow> int" where
  "to_char v = (v + 128) mod 256 - 128"

definition TOKEN_SIZE_MAX :: nat where "TOKEN_SIZE_MAX = 1024"

definition offset_lim :: nat where "offset_lim = TOKEN_SIZE_MAX - 2"

text \<open>
  The body of the for loop works on \<open>status\<close>, the memory, the list, the characters in the
  buffer and \<open>offset\<close>. \<open>on_delimiter\<close> is the first \<^verbatim>\<open>if (is_delimiter)\<close> block: append the
  token built so far and reset the buffer. \<open>on_char\<close> is the block under the filter test:
  store the (transformed) character; a delimiter that passed the filter becomes a token of
  its own, and this second \<^verbatim>\<open>append_token_dup\<close> assigns \<open>status\<close> again; a token that
  reaches \<open>offset_lim\<close> is dropped (the scan over \<open>s\<close> that follows changes no state).
\<close>

type_synonym tok_state = "int \<times> world \<times> nat list_t \<times> int list \<times> nat"

definition on_delimiter :: "nat \<Rightarrow> tok_state \<Rightarrow> tok_state" where
  "on_delimiter min_token_len st =
     (case st of (status, w, list, base, offset) \<Rightarrow>
        (case append_token_dup w list base min_token_len offset of
           (status', w', list') \<Rightarrow> (status', w', list', [], 0)))"

definition on_char ::
  "nat \<Rightarrow> (int \<Rightarrow> int) option \<Rightarrow> (int \<Rightarrow> int) option \<Rightarrow> int \<Rightarrow> bool \<Rightarrow> tok_state \<Rightarrow> tok_state" where
  "on_char min_token_len filterfn transformfn c is_delimiter st =
     (case st of (status, w, list, base, offset) \<Rightarrow>
        if (case filterfn of None \<Rightarrow> True | Some f \<Rightarrow> f c \<noteq> 0) then
          (let base' = base @ [to_char (case transformfn of None \<Rightarrow> c | Some t \<Rightarrow> t c)];
               offset' = offset + 1
           in if is_delimiter then on_delimiter min_token_len (status, w, list, base', offset')
              else if offset' \<ge> offset_lim then (status, w, list, [], 0)
              else (status, w, list, base', offset'))
        else st)"

text \<open>
  The for loop \<^verbatim>\<open>for (; status == 0; str++)\<close>: at the terminating NUL the last token is
  appended and the loop is left; otherwise the body runs and the loop goes on while
  \<open>status\<close> is 0. It returns \<open>status\<close>, the memory and the list.
\<close>

fun tokenize_loop ::
  "int list \<Rightarrow> nat \<Rightarrow> (int \<Rightarrow> int) \<Rightarrow> (int \<Rightarrow> int) option \<Rightarrow> (int \<Rightarrow> int) option
     \<Rightarrow> world \<Rightarrow> nat list_t \<Rightarrow> int list \<Rightarrow> nat \<Rightarrow> int \<times> world \<times> nat list_t" where
  "tokenize_loop [] min_token_len delimitfn filterfn transformfn w list base offset =
     append_token_dup w list base min_token_len offset"
| "tokenize_loop (c # str) min_token_len delimitfn filterfn transformfn w list base offset =
     (if c = 0 then append_token_dup w list base min_token_len offset
      else
        let is_delimiter = (delimitfn c \<noteq> 0);
            st = (0, w, list, base, offset);
            st = (if is_delimiter then on_delimiter min_token_len st else st);
            st = on_char min_token_len filterfn transformfn c is_delimiter st
        in case st of (status, w', list', base', offset') \<Rightarrow>
             if status = 0
             then tokenize_loop str min_token_len delimitfn filterfn transformfn w' list' base' offset'
             else (status, w', list'))"

text \<open>
  The loop after it: \<^verbatim>\<open>while ((status < 0) && (list_length(list) > list_len_before))
  free(list_poplast(list));\<close>
\<close>

function revert_loop :: "int \<Rightarrow> nat \<Rightarrow> world \<Rightarrow> nat list_t \<Rightarrow> (world \<times> nat list_t) option" where
  "revert_loop status list_len_before w list =
     (if status < 0 \<and> list_length list > list_len_before then
        (case list_poplast list of
           None \<Rightarrow> None
         | Some (item, list') \<Rightarrow> revert_loop status list_len_before (free w item) list')
      else Some (w, list))"
  by pat_completeness auto
termination
  by (relation "measure (\<lambda>(s, n, w, l). l_length l)")
     (auto simp: list_poplast_def list_length_def split: if_splits)

declare revert_loop.simps [simp del]

text \<open>
  \<^verbatim>\<open>tokenize_string(str, list, min_token_len, delimitfn, filterfn, transformfn)\<close>, with
  the memory as first argument; \<open>filterfn\<close> and \<open>transformfn\<close> may be \<open>NULL\<close> (\<open>None\<close>).
  \<open>None\<close> as result is a panic or a null dereference in \<^verbatim>\<open>list_poplast\<close>.
\<close>

definition tokenize_string ::
  "world \<Rightarrow> int list \<Rightarrow> nat list_t \<Rightarrow> nat \<Rightarrow> (int \<Rightarrow> int) \<Rightarrow> (int \<Rightarrow> int) option
     \<Rightarrow> (int \<Rightarrow> int) option \<Rightarrow> (int \<times> world \<times> nat list_t) option" where
  "tokenize_string w str list min_token_len delimitfn filterfn transformfn =
     (let list_len_before = list_length list in
      case tokenize_loop str min_token_len delimitfn filterfn transformfn w list [] 0 of
        (status, w', list') \<Rightarrow>
          (case revert_loop status list_len_before w' list' of
             None \<Rightarrow> None
           | Some (w'', list'') \<Rightarrow> Some (status, w'', list'')))"


subsection \<open>The error path restores the list\<close>

text \<open>
  \<open>heap_wf\<close>: nothing is allocated at or above \<open>brk\<close>. \<open>grown w list w' list' new\<close>: the
  list \<open>list'\<close> is \<open>list\<close> with the addresses \<open>new\<close> appended, all of them allocated after
  \<open>w\<close>, and the memory \<open>w'\<close> differs from \<open>w\<close> at these addresses only.
\<close>

definition heap_wf :: "world \<Rightarrow> bool" where
  "heap_wf w \<longleftrightarrow> (\<forall>p. brk w \<le> p \<longrightarrow> mem w p = None)"

definition grown :: "world \<Rightarrow> nat list_t \<Rightarrow> world \<Rightarrow> nat list_t \<Rightarrow> nat list \<Rightarrow> bool" where
  "grown w list w' list' new \<longleftrightarrow>
     list' = list\<lparr>l_items := l_items list @ new, l_length := l_length list + length new\<rparr>
   \<and> heap_wf w' \<and> brk w \<le> brk w' \<and> (\<forall>p \<in> set new. brk w \<le> p)
   \<and> (\<forall>p. p \<notin> set new \<longrightarrow> mem w' p = mem w p)"

lemma grown_refl: "heap_wf w \<Longrightarrow> grown w list w list []"
  by (simp add: grown_def)

lemma grown_trans:
  assumes "grown w list w1 list1 new1" and "grown w1 list1 w2 list2 new2"
  shows "grown w list w2 list2 (new1 @ new2)"
proof -
  from assms have l1: "list1 = list\<lparr>l_items := l_items list @ new1,
                                     l_length := l_length list + length new1\<rparr>"
    and l2: "list2 = list1\<lparr>l_items := l_items list1 @ new2,
                             l_length := l_length list1 + length new2\<rparr>"
    and wf: "heap_wf w2" and b1: "brk w \<le> brk w1" and b2: "brk w1 \<le> brk w2"
    and n1: "\<forall>p \<in> set new1. brk w \<le> p" and n2: "\<forall>p \<in> set new2. brk w1 \<le> p"
    and m1: "\<forall>p. p \<notin> set new1 \<longrightarrow> mem w1 p = mem w p"
    and m2: "\<forall>p. p \<notin> set new2 \<longrightarrow> mem w2 p = mem w1 p"
    by (simp_all add: grown_def)
  have a: "list2 = list\<lparr>l_items := l_items list @ new1 @ new2,
                         l_length := l_length list + length (new1 @ new2)\<rparr>"
    by (simp add: l1 l2)
  have b: "brk w \<le> brk w2" using b1 b2 by simp
  have c: "\<forall>p \<in> set (new1 @ new2). brk w \<le> p"
    using n1 n2 b1 by (auto intro: le_trans)
  have d: "\<forall>p. p \<notin> set (new1 @ new2) \<longrightarrow> mem w2 p = mem w p"
    using m1 m2 by simp
  from a wf b c d show ?thesis unfolding grown_def by blast
qed

lemma malloc_ok_same: "malloc_ok w = (ok, w') \<Longrightarrow> mem w' = mem w \<and> brk w' = brk w"
  by (auto simp: malloc_ok_def split: list.splits)

lemma append_token_dup_grown:
  assumes "heap_wf w" and "append_token_dup w list base n offset = (status, w', list')"
  shows "\<exists>new. grown w list w' list' new"
proof (cases "n \<le> offset")
  case False
  with assms show ?thesis by (auto simp: append_token_dup_def intro: grown_refl)
next
  case True
  obtain ok1 w1 where m1: "malloc_ok w = (ok1, w1)" by (cases "malloc_ok w")
  note s1 = malloc_ok_same [OF m1]
  show ?thesis
  proof (cases ok1)
    case False
    with assms True m1 s1 have "grown w list w' list' []"
      by (auto simp: append_token_dup_def strdup_def grown_def heap_wf_def)
    then show ?thesis ..
  next
    case ok1: True
    define w2 where "w2 = w1\<lparr>mem := (mem w1)(brk w1 \<mapsto> takeWhile (\<lambda>c. c \<noteq> 0) base), brk := Suc (brk w1)\<rparr>"
    obtain ok2 w3 where m2: "malloc_ok w2 = (ok2, w3)" by (cases "malloc_ok w2")
    note s2 = malloc_ok_same [OF m2]
    show ?thesis
    proof (cases ok2)
      case False
      with assms True m1 s1 ok1 m2 s2 have "grown w list w' list' []"
        by (auto simp: append_token_dup_def strdup_def list_addlast_def free_def
              grown_def heap_wf_def w2_def)
      then show ?thesis ..
    next
      case ok2: True
      with assms True m1 s1 ok1 m2 s2 have "grown w list w' list' [brk w]"
        by (auto simp: append_token_dup_def strdup_def list_addlast_def free_def
              grown_def heap_wf_def w2_def)
      then show ?thesis ..
    qed
  qed
qed

lemma on_delimiter_grown:
  assumes "heap_wf w" and "on_delimiter n (s, w, list, base, offset) = (s', w', list', base', offset')"
  shows "\<exists>new. grown w list w' list' new"
  using assms by (auto simp: on_delimiter_def split: prod.splits dest: append_token_dup_grown)

lemma on_char_grown:
  assumes "heap_wf w"
    and "on_char n f t c d (s, w, list, base, offset) = (s', w', list', base', offset')"
  shows "\<exists>new. grown w list w' list' new"
  using assms
  by (auto simp: on_char_def Let_def split: if_splits dest: on_delimiter_grown intro: grown_refl)

lemma grown_heap_wf: "grown w list w' list' new \<Longrightarrow> heap_wf w'"
  by (simp add: grown_def)

lemma tokenize_loop_grown:
  "heap_wf w \<Longrightarrow> tokenize_loop str n d f t w list base offset = (status, w', list')
     \<Longrightarrow> \<exists>new. grown w list w' list' new"
proof (induction str arbitrary: w list base offset)
  case Nil
  then show ?case by (auto dest: append_token_dup_grown)
next
  case (Cons c str)
  show ?case
  proof (cases "c = 0")
    case True
    with Cons.prems show ?thesis by (auto dest: append_token_dup_grown)
  next
    case False
    define st1 where "st1 = (if d c \<noteq> 0 then on_delimiter n (0, w, list, base, offset)
                             else (0, w, list, base, offset))"
    obtain s1 w1 l1 b1 o1 where st1: "st1 = (s1, w1, l1, b1, o1)" by (cases st1) auto
    obtain s2 w2 l2 b2 o2 where
      st2: "on_char n f t c (d c \<noteq> 0) (s1, w1, l1, b1, o1) = (s2, w2, l2, b2, o2)"
      by (cases "on_char n f t c (d c \<noteq> 0) (s1, w1, l1, b1, o1)") auto
    from st1 Cons.prems(1) obtain new1 where g1: "grown w list w1 l1 new1"
      unfolding st1_def by (auto split: if_splits dest: on_delimiter_grown intro: grown_refl)
    from on_char_grown [OF grown_heap_wf [OF g1] st2] obtain new2 where
      g2: "grown w1 l1 w2 l2 new2" by blast
    note g12 = grown_trans [OF g1 g2]
    from Cons.prems(2) False st1 st2
    have r: "(if s2 = 0 then tokenize_loop str n d f t w2 l2 b2 o2 else (s2, w2, l2))
               = (status, w', list')"
      by (simp add: Let_def st1_def)
    show ?thesis
    proof (cases "s2 = 0")
      case True
      with r have "tokenize_loop str n d f t w2 l2 b2 o2 = (status, w', list')" by simp
      from Cons.IH [OF grown_heap_wf [OF g12] this] obtain new3 where
        "grown w2 l2 w' list' new3" by blast
      from grown_trans [OF g12 this] show ?thesis by blast
    next
      case False
      with r g12 show ?thesis by auto
    qed
  qed
qed

lemma revert_loop_pops:
  "status < 0 \<Longrightarrow>
   revert_loop status (l_length list) w
       (list\<lparr>l_items := l_items list @ new, l_length := l_length list + length new\<rparr>)
     = Some (w\<lparr>mem := (\<lambda>p. if p \<in> set new then None else mem w p)\<rparr>, list)"
proof (induction new arbitrary: w rule: rev_induct)
  case Nil
  then show ?case by (subst revert_loop.simps) (simp add: list_length_def)
next
  case (snoc x xs)
  have "revert_loop status (l_length list) w
          (list\<lparr>l_items := l_items list @ xs @ [x],
                l_length := l_length list + length (xs @ [x])\<rparr>)
      = revert_loop status (l_length list) (free w x)
          (list\<lparr>l_items := l_items list @ xs, l_length := l_length list + length xs\<rparr>)"
    using snoc.prems
    by (subst revert_loop.simps) (simp add: list_length_def list_poplast_def butlast_append)
  also have "\<dots> = Some ((free w x)\<lparr>mem := (\<lambda>p. if p \<in> set xs then None
                                                   else mem (free w x) p)\<rparr>, list)"
    using snoc.prems by (rule snoc.IH)
  also have "(free w x)\<lparr>mem := (\<lambda>p. if p \<in> set xs then None else mem (free w x) p)\<rparr>
      = w\<lparr>mem := (\<lambda>p. if p \<in> set (xs @ [x]) then None else mem w p)\<rparr>"
    by (auto simp: free_def fun_eq_iff)
  finally show ?case .
qed

lemma revert_loop_keep:
  "\<not> status < 0 \<Longrightarrow> revert_loop status n w list = Some (w, list)"
  by (subst revert_loop.simps) simp

text \<open>
  C10: tokenize_string returns, and when it returns a negative status the list is exactly
  the list before the call, and the memory holds exactly the strings it held before the
  call: every token appended by the failed call has been popped and freed.
\<close>

theorem tokenize_string_error_restores_list:
  assumes "heap_wf w"
  shows "\<exists>status w' list'.
           tokenize_string w str list min_token_len delimitfn filterfn transformfn
             = Some (status, w', list')
         \<and> (status < 0 \<longrightarrow> list' = list \<and> mem w' = mem w)"
proof -
  obtain status w1 list1 where
    l: "tokenize_loop str min_token_len delimitfn filterfn transformfn w list [] 0
          = (status, w1, list1)"
    by (cases "tokenize_loop str min_token_len delimitfn filterfn transformfn w list [] 0")
  from tokenize_loop_grown [OF assms l] obtain new where g: "grown w list w1 list1 new"
    by blast
  show ?thesis
  proof (cases "status < 0")
    case False
    with l show ?thesis by (simp add: tokenize_string_def revert_loop_keep)
  next
    case True
    from g have l1: "list1 = list\<lparr>l_items := l_items list @ new,
                                  l_length := l_length list + length new\<rparr>"
      by (simp add: grown_def)
    have "(\<lambda>p. if p \<in> set new then None else mem w1 p) = mem w"
    proof
      fix p
      show "(if p \<in> set new then None else mem w1 p) = mem w p"
        using g assms unfolding grown_def heap_wf_def by auto
    qed
    with revert_loop_pops [OF True, of list w1 new] l l1 True show ?thesis
      by (simp add: tokenize_string_def list_length_def)
  qed
qed

theorem tokenize_string_error_restores_list_witness:
  "heap_wf \<lparr>mem = Map.empty, brk = 0, allocs = [True, True, True, False]\<rparr>
   \<and> (\<exists>w'. tokenize_string \<lparr>mem = Map.empty, brk = 0, allocs = [True, True, True, False]\<rparr>
         [97, 98, 32, 99] \<lparr>l_items = [], l_length = 0, l_cmpfn = (\<lambda>a b. 0)\<rparr>
         1 (\<lambda>c. if c = 32 then 1 else 0) None None
       = Some (- 1, w', \<lparr>l_items = [], l_length = 0, l_cmpfn = (\<lambda>a b. 0)\<rparr>)
       \<and> mem w' = Map.empty)"
proof -
  let ?w = "\<lparr>mem = Map.empty, brk = 0, allocs = [True, True, True, False]\<rparr>"
  let ?l = "\<lparr>l_items = [], l_length = 0, l_cmpfn = (\<lambda>a b :: nat. 0 :: int)\<rparr>"
  have wf: "heap_wf ?w" by (simp add: heap_wf_def)
  have st: "fst (tokenize_loop [97, 98, 32, 99] 1 (\<lambda>c. if c = 32 then 1 else 0) None None
              ?w ?l [] 0) = - 1"
    by (simp add: on_delimiter_def on_char_def append_token_dup_def strdup_def malloc_ok_def
          list_addlast_def free_def to_char_def offset_lim_def TOKEN_SIZE_MAX_def Let_def)
  from tokenize_string_error_restores_list [OF wf, of "[97, 98, 32, 99]" ?l 1
      "\<lambda>c. if c = 32 then 1 else 0" None None]
  obtain status w' list' where
    r: "tokenize_string ?w [97, 98, 32, 99] ?l 1 (\<lambda>c. if c = 32 then 1 else 0) None None
          = Some (status, w', list')"
    and i: "status < 0 \<longrightarrow> list' = ?l \<and> mem w' = mem ?w"
    by blast
  from r st have "status = - 1"
    by (auto simp: tokenize_string_def split: prod.splits option.splits)
  with r i wf show ?thesis by simp
qed

section \<open>Sorting a list after removals (src/adt/doublylinkedlist.c)\<close>

text \<open>
  \<^verbatim>\<open>list_create(cmpfn)\<close> returns the empty list. \<^verbatim>\<open>list_remove(list, item)\<close> walks the
  chain from \<open>leftmost\<close> to the first node whose item compares equal to \<open>item\<close>
  (\<open>list_remove_loop\<close>: the item found and the chain without that node). When there is
  none it returns \<open>NULL\<close>. Otherwise it splices the node out, frees it and returns its item.
  It does not touch the \<open>length\<close> field, where \<^verbatim>\<open>list_popfirst\<close> and \<^verbatim>\<open>list_poplast\<close>
  decrement it.
\<close>

definition list_create :: "'a cmp_fn \<Rightarrow> 'a list_t" where
  "list_create cmpfn = \<lparr>l_items = [], l_length = 0, l_cmpfn = cmpfn\<rparr>"

fun list_remove_loop :: "'a cmp_fn \<Rightarrow> 'a \<Rightarrow> 'a list \<Rightarrow> ('a \<times> 'a list) option" where
  "list_remove_loop cmpfn item [] = None"
| "list_remove_loop cmpfn item (x # xs) =
     (if cmpfn item x = 0 then Some (x, xs)
      else case list_remove_loop cmpfn item xs of
             None \<Rightarrow> None
           | Some (found, ys) \<Rightarrow> Some (found, x # ys))"

definition list_remove :: "'a list_t \<Rightarrow> 'a \<Rightarrow> 'a option \<times> 'a list_t" where
  "list_remove list item =
     (case list_remove_loop (l_cmpfn list) item (l_items list) of
        None \<Rightarrow> (None, list)
      | Some (found, items) \<Rightarrow> (Some found, list\<lparr>l_items := items\<rparr>))"

text \<open>
  C9: list_sort does not leave every list with fewer than two elements unchanged. Create a
  list ordered by the difference of integers (a total order: \<open>cmp_total_int\<close>), add 1 and 2 with list_addlast
  (both allocations succeed) and remove both with list_remove. The list is then empty, but
  list_length is still 2, so list_sort passes its test \<^verbatim>\<open>list->length < 2\<close> and calls
  \<^verbatim>\<open>mergesort_(NULL, cmpfn)\<close>, which reads \<^verbatim>\<open>leftmost->right\<close>: the call does not return.
\<close>

theorem list_sort_after_list_remove_aborts:
  "(let w = \<lparr>mem = Map.empty, brk = 0, allocs = []\<rparr>;
        list = list_create (\<lambda>a b :: int. a - b);
        (status1, w1, list1) = list_addlast w list 1;
        (status2, w2, list2) = list_addlast w1 list1 2;
        (found1, list3) = list_remove list2 1;
        (found2, list4) = list_remove list3 2
    in status1 = 0 \<and> status2 = 0
       \<and> found1 = Some 1 \<and> found2 = Some 2
       \<and> l_items list4 = [] \<and> list_length list4 = 2
       \<and> list_sort list4 = None)"
  by (simp add: list_create_def list_addlast_def malloc_ok_def list_remove_def list_length_def
        list_sort_def)

section \<open>The red-black tree set (src/adt/rbtreeset.c)\<close>

text \<open>
  \<^verbatim>\<open>struct tnode { tnode_color_t color; void *elem; tnode_t *parent, *left, *right; }\<close> and
  \<^verbatim>\<open>struct set { tnode_t *root; cmp_fn cmpfn; size_t length; }\<close>. A tree is the nodes
  reachable from \<open>root\<close> along \<open>left\<close> and \<open>right\<close>; \<open>NIL\<close> is the black sentinel that
  stands for every missing child. Every node is allocated by \<^verbatim>\<open>set_insert\<close> or
  \<^verbatim>\<open>rec_set_copy\<close> for the one set it is linked into, so two sets share no node and a tree
  is a value. Allocation failure, on which the code panics, is not modelled here. Elements
  are non-null pointers.
\<close>

datatype tnode_color = RED | BLACK

datatype 'a tnode = NIL | Node tnode_color "'a tnode" 'a "'a tnode"

record 'a set_t =
  s_root :: "'a tnode"
  s_cmpfn :: "'a cmp_fn"
  s_length :: nat

text \<open>\<open>node->color\<close>, which is \<open>BLACK\<close> for the sentinel, and the assignment to it.\<close>

fun color_of :: "'a tnode \<Rightarrow> tnode_color" where
  "color_of NIL = BLACK"
| "color_of (Node c l x r) = c"

fun paint :: "tnode_color \<Rightarrow> 'a tnode \<Rightarrow> 'a tnode" where
  "paint c NIL = NIL"
| "paint c (Node c' l x r) = Node c l x r"

text \<open>
  The \<open>parent\<close> pointers lead from a node back to the root. A node below the root is
  reached by a path of crumbs, nearest parent first: each crumb is the parent's colour and
  element, whether the node is its left or its right child, and the parent's other subtree.
  \<open>fill\<close> puts a subtree back under its parent, \<open>plug\<close> under the whole path.
\<close>

datatype 'a crumb = WentLeft tnode_color 'a "'a tnode" | WentRight tnode_color "'a tnode" 'a

fun crumb_color :: "'a crumb \<Rightarrow> tnode_color" where
  "crumb_color (WentLeft c x r) = c"
| "crumb_color (WentRight c l x) = c"

fun sibling :: "'a crumb \<Rightarrow> 'a tnode" where
  "sibling (WentLeft c x r) = r"
| "sibling (WentRight c l x) = l"

fun fill :: "'a tnode \<Rightarrow> 'a crumb \<Rightarrow> 'a tnode" where
  "fill t (WentLeft c x r) = Node c t x r"
| "fill t (WentRight c l x) = Node c l x t"

fun plug :: "'a tnode \<Rightarrow> 'a crumb list \<Rightarrow> 'a tnode" where
  "plug t [] = t"
| "plug t (c # path) = plug (fill t c) path"

definition set_create :: "'a cmp_fn \<Rightarrow> 'a set_t" where
  "set_create cmpfn = \<lparr>s_root = NIL, s_cmpfn = cmpfn, s_length = 0\<rparr>"

definition set_length :: "'a set_t \<Rightarrow> nat" where
  "set_length s = s_length s"

text \<open>
  \<^verbatim>\<open>rotate_left(set, u)\<close> makes \<open>v = u->right\<close> the root of the subtree and \<open>u\<close> its left
  child; the colours stay with the nodes. The code reads \<open>v->left\<close>, so \<open>v\<close> must be a
  node (\<open>None\<close> otherwise). \<^verbatim>\<open>rotate_right\<close> is the mirror image. Re-linking the subtree
  under \<open>u->parent\<close> is \<open>plug\<close>.
\<close>

fun rotate_left :: "'a tnode \<Rightarrow> 'a tnode option" where
  "rotate_left (Node cu ul u (Node cv vl v vr)) = Some (Node cv (Node cu ul u vl) v vr)"
| "rotate_left t = None"

fun rotate_right :: "'a tnode \<Rightarrow> 'a tnode option" where
  "rotate_right (Node cu (Node cv vl v vr) u ur) = Some (Node cv vl v (Node cu vr u ur))"
| "rotate_right t = None"

text \<open>
  After the rotations the code sets \<open>par->color = BLACK\<close> and \<open>gp->color = RED\<close>: \<open>par\<close>
  is the new root of the subtree and \<open>gp\<close> its right child (after \<open>rotate_right(gp)\<close>) or
  its left child (after \<open>rotate_left(gp)\<close>).
\<close>

fun recolor_after_right :: "'a tnode \<Rightarrow> 'a tnode" where
  "recolor_after_right (Node c l x r) = Node BLACK l x (paint RED r)"
| "recolor_after_right NIL = NIL"

fun recolor_after_left :: "'a tnode \<Rightarrow> 'a tnode" where
  "recolor_after_left (Node c l x r) = Node BLACK (paint RED l) x r"
| "recolor_after_left NIL = NIL"

text \<open>
  The loop of \<^verbatim>\<open>post_insert_balance\<close>, on the subtree at \<open>cur\<close> and the path above it. It
  runs while \<open>cur->parent\<close> is red. With no grandparent, \<open>gp\<close> is the sentinel, whose
  \<open>left\<close> is a null pointer: \<open>unc->color\<close> is a null dereference (\<open>None\<close>). A red uncle:
  recolour and go on from the grandparent. A black uncle: rotate \<open>par\<close> when \<open>cur\<close> is the
  inner grandchild, rotate \<open>gp\<close>, fix the colours, and leave the loop. The result is the
  whole tree; \<^verbatim>\<open>post_insert_balance\<close> then sets \<open>set->root->color = BLACK\<close>.
\<close>

fun balance_loop :: "'a tnode \<Rightarrow> 'a crumb list \<Rightarrow> 'a tnode option" where
  "balance_loop cur [] = Some cur"
| "balance_loop cur [par] =
     (if crumb_color par = RED then None else Some (fill cur par))"
| "balance_loop cur (par # gp # path) =
     (if crumb_color par = RED then
        (case gp of
           WentLeft cg g unc \<Rightarrow>
             if color_of unc = RED then
               balance_loop (Node RED (paint BLACK (fill cur par)) g (paint BLACK unc)) path
             else
               (case (case par of WentRight cp pl p \<Rightarrow> rotate_left (fill cur par)
                                | WentLeft cp p pr \<Rightarrow> Some (fill cur par)) of
                  None \<Rightarrow> None
                | Some par' \<Rightarrow>
                    (case rotate_right (Node cg par' g unc) of
                       None \<Rightarrow> None
                     | Some t \<Rightarrow> Some (plug (recolor_after_right t) path)))
         | WentRight cg unc g \<Rightarrow>
             if color_of unc = RED then
               balance_loop (Node RED (paint BLACK unc) g (paint BLACK (fill cur par))) path
             else
               (case (case par of WentLeft cp p pr \<Rightarrow> rotate_right (fill cur par)
                                | WentRight cp pl p \<Rightarrow> Some (fill cur par)) of
                  None \<Rightarrow> None
                | Some par' \<Rightarrow>
                    (case rotate_left (Node cg unc g par') of
                       None \<Rightarrow> None
                     | Some t \<Rightarrow> Some (plug (recolor_after_left t) path))))
      else Some (plug cur (par # gp # path)))"

definition post_insert_balance :: "'a tnode \<Rightarrow> 'a crumb list \<Rightarrow> 'a tnode option" where
  "post_insert_balance added_node path = map_option (paint BLACK) (balance_loop added_node path)"

text \<open>
  \<^verbatim>\<open>validate_rbtree\<close> runs after every insertion that links a node, and its assertions
  abort the program. \<^verbatim>\<open>rec_validate_rbtree(node, black_count, path_black_count)\<close> returns
  the updated \<open>*path_black_count\<close>, or \<open>None\<close> when an assertion fails: a red node with a
  red child, or a path with a different number of black nodes.
\<close>

fun rec_validate_rbtree :: "'a tnode \<Rightarrow> int \<Rightarrow> int \<Rightarrow> int option" where
  "rec_validate_rbtree NIL black_count path_black_count =
     (let path_black_count' = (if path_black_count = - 1 then black_count else path_black_count)
      in if black_count = path_black_count' then Some path_black_count' else None)"
| "rec_validate_rbtree (Node c l x r) black_count path_black_count =
     (if c = RED \<and> \<not> (color_of l \<noteq> RED \<and> color_of r \<noteq> RED) then None
      else
        let black_count' = (if c = RED then black_count else black_count + 1) in
        case rec_validate_rbtree l black_count' path_black_count of
          None \<Rightarrow> None
        | Some path_black_count' \<Rightarrow> rec_validate_rbtree r black_count' path_black_count')"

definition validate_rbtree :: "'a set_t \<Rightarrow> bool" where
  "validate_rbtree s =
     (case s_root s of
        NIL \<Rightarrow> True
      | Node c l x r \<Rightarrow> c = BLACK \<and> rec_validate_rbtree (s_root s) 0 (- 1) \<noteq> None)"

text \<open>
  The descent of \<^verbatim>\<open>set_insert\<close>: compare at \<open>cur\<close>, go right or left, and stop either at a
  node with an equal element, whose element is then swapped (\<open>Equal\<close>: the element that was
  replaced, and the tree), or at the node under which the new node is linked (\<open>Parent\<close>:
  the path of the new node).
\<close>

datatype 'a traversal = Equal 'a "'a tnode" | Parent "'a crumb list"

fun traverse :: "'a cmp_fn \<Rightarrow> 'a \<Rightarrow> 'a tnode \<Rightarrow> 'a crumb list \<Rightarrow> 'a traversal option" where
  "traverse cmpfn elem NIL path = None"
| "traverse cmpfn elem (Node c l x r) path =
     (let cmp = cmpfn elem x in
      if cmp > 0 then
        (case r of NIL \<Rightarrow> Some (Parent (WentRight c l x # path))
         | Node rc rl rx rr \<Rightarrow> traverse cmpfn elem r (WentRight c l x # path))
      else if cmp < 0 then
        (case l of NIL \<Rightarrow> Some (Parent (WentLeft c x r # path))
         | Node lc ll lx lr \<Rightarrow> traverse cmpfn elem l (WentLeft c x r # path))
      else Some (Equal x (plug (Node c l elem r) path)))"

text \<open>
  \<^verbatim>\<open>set_insert(set, elem)\<close> returns the replaced element or \<open>NULL\<close> (the first component),
  and the set after the call; \<open>None\<close> is an abort.
\<close>

definition set_insert :: "'a set_t \<Rightarrow> 'a \<Rightarrow> ('a option \<times> 'a set_t) option" where
  "set_insert s elem =
     (case s_root s of
        NIL \<Rightarrow> Some (None, s\<lparr>s_root := Node BLACK NIL elem NIL, s_length := s_length s + 1\<rparr>)
      | Node c l x r \<Rightarrow>
          (case traverse (s_cmpfn s) elem (s_root s) [] of
             None \<Rightarrow> None
           | Some (Equal replaced root') \<Rightarrow> Some (Some replaced, s\<lparr>s_root := root'\<rparr>)
           | Some (Parent path) \<Rightarrow>
               (case post_insert_balance (Node RED NIL elem NIL) path of
                  None \<Rightarrow> None
                | Some root' \<Rightarrow>
                    (let s' = s\<lparr>s_root := root', s_length := s_length s + 1\<rparr>
                     in if validate_rbtree s' then Some (None, s') else None))))"

text \<open>The elements from left to right.\<close>

fun inorder :: "'a tnode \<Rightarrow> 'a list" where
  "inorder NIL = []"
| "inorder (Node c l x r) = inorder l @ x # inorder r"


subsection \<open>The red-black invariants\<close>

fun black_height :: "'a tnode \<Rightarrow> nat" where
  "black_height NIL = 0"
| "black_height (Node c l x r) = (if c = BLACK then Suc (black_height l) else black_height l)"

fun no_red_red :: "'a tnode \<Rightarrow> bool" where
  "no_red_red NIL = True"
| "no_red_red (Node c l x r) =
     ((c = RED \<longrightarrow> color_of l = BLACK \<and> color_of r = BLACK) \<and> no_red_red l \<and> no_red_red r)"

fun black_balanced :: "'a tnode \<Rightarrow> bool" where
  "black_balanced NIL = True"
| "black_balanced (Node c l x r) =
     (black_height l = black_height r \<and> black_balanced l \<and> black_balanced r)"

fun black_above :: "'a crumb list \<Rightarrow> bool" where
  "black_above [] = True"
| "black_above (c # path) = (crumb_color c = BLACK)"

fun path_ok :: "nat \<Rightarrow> 'a crumb list \<Rightarrow> bool" where
  "path_ok h [] = True"
| "path_ok h (c # path) =
     (no_red_red (sibling c) \<and> black_balanced (sibling c) \<and> black_height (sibling c) = h
      \<and> (crumb_color c = RED \<longrightarrow> color_of (sibling c) = BLACK \<and> path \<noteq> [] \<and> black_above path)
      \<and> path_ok (if crumb_color c = BLACK then Suc h else h) path)"

lemma color_cases: "c = RED \<or> c = BLACK"
  by (cases c) simp_all

lemma not_RED [simp]: "(c \<noteq> RED) = (c = BLACK)"
  by (cases c) simp_all

lemma not_BLACK [simp]: "(c \<noteq> BLACK) = (c = RED)"
  by (cases c) simp_all

lemma color_of_RED: "color_of t = RED \<Longrightarrow> \<exists>l x r. t = Node RED l x r"
  by (cases t) auto

lemma no_red_red_paint_BLACK: "no_red_red t \<Longrightarrow> no_red_red (paint BLACK t)"
  by (cases t) auto

lemma black_balanced_paint: "black_balanced (paint c t) = black_balanced t"
  by (cases t) auto

lemma rec_validate_rbtree_ok:
  "no_red_red t \<Longrightarrow> black_balanced t \<Longrightarrow> 0 \<le> bc
     \<Longrightarrow> pbc = - 1 \<or> pbc = bc + int (black_height t)
     \<Longrightarrow> rec_validate_rbtree t bc pbc = Some (bc + int (black_height t))"
proof (induction t arbitrary: bc pbc)
  case NIL
  then show ?case by auto
next
  case (Node c l x r)
  let ?bc = "if c = RED then bc else bc + 1"
  have bc: "0 \<le> ?bc" using Node.prems(3) by simp
  have h: "?bc + int (black_height l) = bc + int (black_height (Node c l x r))"
    by (cases c) simp_all
  have l: "rec_validate_rbtree l ?bc pbc = Some (?bc + int (black_height l))"
    using Node.prems by (intro Node.IH(1) bc) (auto simp: h)
  have hr: "black_height l = black_height r" using Node.prems(2) by simp
  have r: "rec_validate_rbtree r ?bc (?bc + int (black_height l))
             = Some (?bc + int (black_height r))"
    using Node.prems by (intro Node.IH(2) bc) (auto simp: hr)
  have ok: "\<not> (c = RED \<and> \<not> (color_of l \<noteq> RED \<and> color_of r \<noteq> RED))"
    using Node.prems(1) by auto
  show ?case
    using ok l r h hr by (simp add: Let_def del: not_RED not_BLACK)
qed

lemma plug_ok:
  "path_ok (black_height t) path \<Longrightarrow> no_red_red t \<Longrightarrow> black_balanced t
     \<Longrightarrow> (color_of t = RED \<longrightarrow> black_above path) \<Longrightarrow> t \<noteq> NIL
     \<Longrightarrow> black_balanced (plug t path) \<and> no_red_red (paint BLACK (plug t path))
         \<and> plug t path \<noteq> NIL"
proof (induction path arbitrary: t)
  case Nil
  then show ?case by (simp add: no_red_red_paint_BLACK)
next
  case (Cons c path)
  have "path_ok (black_height (fill t c)) path" "no_red_red (fill t c)"
    "black_balanced (fill t c)" "color_of (fill t c) = RED \<longrightarrow> black_above path"
    "fill t c \<noteq> NIL"
    using Cons.prems by (cases c; cases "crumb_color c"; auto)+
  from Cons.IH [OF this] show ?case by simp
qed

lemma balance_loop_ok:
  "path_ok (black_height cur) path \<Longrightarrow> color_of cur = RED \<Longrightarrow> no_red_red cur
     \<Longrightarrow> black_balanced cur
     \<Longrightarrow> \<exists>t. balance_loop cur path = Some t \<and> black_balanced t
           \<and> no_red_red (paint BLACK t) \<and> t \<noteq> NIL"
proof (induction cur path rule: balance_loop.induct)
  case (1 cur)
  then show ?case by (auto simp: no_red_red_paint_BLACK)
next
  case (2 cur par)
  then show ?case by (cases par) auto
next
  case (3 cur par gp path)
  from "3.prems"(2) obtain cl cx cr where cur: "cur = Node RED cl cx cr"
    by (auto dest: color_of_RED)
  show ?case
  proof (cases "crumb_color par = RED")
    case False
    then have "color_of cur = RED \<longrightarrow> black_above (par # gp # path)" by simp
    from plug_ok [OF "3.prems"(1,3,4) this] cur False show ?thesis by simp
  next
    case pR: True
    with "3.prems"(1) have gB: "crumb_color gp = BLACK" by simp
    show ?thesis
    proof (cases gp)
      case gp: (WentLeft cg g unc)
      show ?thesis
      proof (cases "color_of unc = RED")
        case uR: True
        let ?cur' = "Node RED (paint BLACK (fill cur par)) g (paint BLACK unc)"
        have "path_ok (black_height ?cur') path" "color_of ?cur' = RED" "no_red_red ?cur'"
          "black_balanced ?cur'"
          using "3.prems" pR gB gp uR cur
          by (cases par; cases unc; auto)+
        from "3.IH"(1) [OF pR gp uR this] show ?thesis using pR gp uR by simp
      next
        case uB: False
        show ?thesis
        proof (cases par)
          case par: (WentLeft cp p pr)
          let ?t = "Node BLACK cur p (Node RED pr g unc)"
          have r: "balance_loop cur (par # gp # path) = Some (plug ?t path)"
            using pR gp uB par by simp
          have "path_ok (black_height ?t) path" "no_red_red ?t" "black_balanced ?t"
            using "3.prems" pR gB gp uB par cur by auto
          from plug_ok [OF this] r show ?thesis by simp
        next
          case par: (WentRight cp pl p)
          let ?t = "Node BLACK (Node RED pl p cl) cx (Node RED cr g unc)"
          have r: "balance_loop cur (par # gp # path) = Some (plug ?t path)"
            using pR gp uB par cur by simp
          have "path_ok (black_height ?t) path" "no_red_red ?t" "black_balanced ?t"
            using "3.prems" pR gB gp uB par cur by auto
          from plug_ok [OF this] r show ?thesis by simp
        qed
      qed
    next
      case gp: (WentRight cg unc g)
      show ?thesis
      proof (cases "color_of unc = RED")
        case uR: True
        let ?cur' = "Node RED (paint BLACK unc) g (paint BLACK (fill cur par))"
        have "path_ok (black_height ?cur') path" "color_of ?cur' = RED" "no_red_red ?cur'"
          "black_balanced ?cur'"
          using "3.prems" pR gB gp uR cur
          by (cases par; cases unc; auto)+
        from "3.IH"(2) [OF pR gp uR this] show ?thesis using pR gp uR by simp
      next
        case uB: False
        show ?thesis
        proof (cases par)
          case par: (WentRight cp pl p)
          let ?t = "Node BLACK (Node RED unc g pl) p cur"
          have r: "balance_loop cur (par # gp # path) = Some (plug ?t path)"
            using pR gp uB par by simp
          have "path_ok (black_height ?t) path" "no_red_red ?t" "black_balanced ?t"
            using "3.prems" pR gB gp uB par cur by auto
          from plug_ok [OF this] r show ?thesis by simp
        next
          case par: (WentLeft cp p pr)
          let ?t = "Node BLACK (Node RED unc g cl) cx (Node RED cr p pr)"
          have r: "balance_loop cur (par # gp # path) = Some (plug ?t path)"
            using pR gp uB par cur by simp
          have "path_ok (black_height ?t) path" "no_red_red ?t" "black_balanced ?t"
            using "3.prems" pR gB gp uB par cur by auto
          from plug_ok [OF this] r show ?thesis by simp
        qed
      qed
    qed
  qed
qed


subsection \<open>The elements in order\<close>

fun lefts :: "'a crumb list \<Rightarrow> 'a list" where
  "lefts [] = []"
| "lefts (WentLeft c x r # path) = lefts path"
| "lefts (WentRight c l x # path) = lefts path @ inorder l @ [x]"

fun rights :: "'a crumb list \<Rightarrow> 'a list" where
  "rights [] = []"
| "rights (WentLeft c x r # path) = x # inorder r @ rights path"
| "rights (WentRight c l x # path) = rights path"

lemma inorder_paint [simp]: "inorder (paint c t) = inorder t"
  by (cases t) auto

lemma inorder_fill: "lefts (c # path) @ inorder t @ rights (c # path)
    = lefts path @ inorder (fill t c) @ rights path"
  by (cases c) auto

lemma inorder_plug: "inorder (plug t path) = lefts path @ inorder t @ rights path"
proof (induction path arbitrary: t)
  case Nil
  then show ?case by simp
next
  case (Cons c path)
  then show ?case by (simp add: inorder_fill del: lefts.simps rights.simps)
qed

lemma inorder_balance_loop:
  "balance_loop cur path = Some t \<Longrightarrow> inorder t = lefts path @ inorder cur @ rights path"
proof (induction cur path arbitrary: t rule: balance_loop.induct)
  case (1 cur)
  then show ?case by simp
next
  case (2 cur par)
  then show ?case by (cases par) (auto split: if_splits)
next
  case (3 cur par gp path)
  show ?case
  proof (cases "crumb_color par = RED")
    case False
    with "3.prems" have "t = plug cur (par # gp # path)" by simp
    then show ?thesis by (simp only: inorder_plug)
  next
    case pR: True
    show ?thesis
    proof (cases gp)
      case gp: (WentLeft cg g unc)
      show ?thesis
      proof (cases "color_of unc = RED")
        case True
        with "3.prems" pR gp have
          "balance_loop (Node RED (paint BLACK (fill cur par)) g (paint BLACK unc)) path = Some t"
          by simp
        from "3.IH"(1) [OF pR gp True this] show ?thesis
          using gp by (cases par) auto
      next
        case False
        with "3.prems" pR gp show ?thesis
          by (cases par; cases cur)
             (auto simp: inorder_plug split: option.splits if_splits)
      qed
    next
      case gp: (WentRight cg unc g)
      show ?thesis
      proof (cases "color_of unc = RED")
        case True
        with "3.prems" pR gp have
          "balance_loop (Node RED (paint BLACK unc) g (paint BLACK (fill cur par))) path = Some t"
          by simp
        from "3.IH"(2) [OF pR gp True this] show ?thesis
          using gp by (cases par) auto
      next
        case False
        with "3.prems" pR gp show ?thesis
          by (cases par; cases cur)
             (auto simp: inorder_plug split: option.splits if_splits)
      qed
    qed
  qed
qed

subsection \<open>Insertion into a strictly ascending list\<close>

abbreviation strictly_ascending :: "'a cmp_fn \<Rightarrow> 'a list \<Rightarrow> bool" where
  "strictly_ascending c \<equiv> sorted_wrt (\<lambda>a b. c a b < 0)"

fun list_insert :: "'a cmp_fn \<Rightarrow> 'a \<Rightarrow> 'a list \<Rightarrow> 'a list" where
  "list_insert c e [] = [e]"
| "list_insert c e (x # xs) =
     (if c e x > 0 then x # list_insert c e xs
      else if c e x < 0 then e # x # xs
      else e # xs)"

lemma cmp_gt_iff: "cmp_total c \<Longrightarrow> (c a b > 0) = (c b a < 0)"
  unfolding cmp_total_def by blast

lemma cmp_eq_sym: "cmp_total c \<Longrightarrow> c a b = 0 \<Longrightarrow> c b a = 0"
  unfolding cmp_total_def by (metis less_irrefl linorder_neqE_linordered_idom)

lemma cmp_lt_trans: "cmp_total c \<Longrightarrow> c a b < 0 \<Longrightarrow> c b d < 0 \<Longrightarrow> c a d < 0"
proof -
  assume t: "cmp_total c" and 1: "c a b < 0" and 2: "c b d < 0"
  have le: "c a d \<le> 0" using cmp_total_trans [OF t, of a b d] 1 2 by simp
  have "c a d \<noteq> 0"
  proof
    assume "c a d = 0"
    then have "c d a \<le> 0" using cmp_eq_sym [OF t] by fastforce
    then have "c d b \<le> 0" using cmp_total_trans [OF t, of d a b] 1 by simp
    moreover have "c d b > 0" using 2 cmp_gt_iff [OF t, of d b] by simp
    ultimately show False by simp
  qed
  with le show ?thesis by simp
qed

lemma cmp_eq_lt_trans: "cmp_total c \<Longrightarrow> c a b = 0 \<Longrightarrow> c b d < 0 \<Longrightarrow> c a d < 0"
proof -
  assume t: "cmp_total c" and 1: "c a b = 0" and 2: "c b d < 0"
  have le: "c a d \<le> 0" using cmp_total_trans [OF t, of a b d] 1 2 by simp
  have "c a d \<noteq> 0"
  proof
    assume "c a d = 0"
    then have "c d a \<le> 0" using cmp_eq_sym [OF t] by fastforce
    then have "c d b \<le> 0" using cmp_total_trans [OF t, of d a b] 1 by simp
    moreover have "c d b > 0" using 2 cmp_gt_iff [OF t, of d b] by simp
    ultimately show False by simp
  qed
  with le show ?thesis by simp
qed

lemma cmp_lt_eq_trans: "cmp_total c \<Longrightarrow> c a b < 0 \<Longrightarrow> c b d = 0 \<Longrightarrow> c a d < 0"
proof -
  assume t: "cmp_total c" and 1: "c a b < 0" and 2: "c b d = 0"
  have le: "c a d \<le> 0" using cmp_total_trans [OF t, of a b d] 1 2 by simp
  have "c a d \<noteq> 0"
  proof
    assume "c a d = 0"
    then have "c d a \<le> 0" using cmp_eq_sym [OF t] by fastforce
    with 2 have "c b a \<le> 0" using cmp_total_trans [OF t, of b d a] by simp
    moreover have "c b a > 0" using 1 cmp_gt_iff [OF t, of b a] by simp
    ultimately show False by simp
  qed
  with le show ?thesis by simp
qed

lemma list_insert_past:
  "\<forall>y \<in> set xs. c e y > 0 \<Longrightarrow> list_insert c e (xs @ ys) = xs @ list_insert c e ys"
  by (induction xs) auto

lemma list_insert_before:
  "c e x < 0 \<Longrightarrow> list_insert c e (xs @ x # ys) = list_insert c e xs @ x # ys"
  by (induction xs) auto

lemma find_past:
  "\<forall>y \<in> set xs. \<not> P y \<Longrightarrow> find P (xs @ ys) = find P ys"
  by (induction xs) auto

lemma find_before:
  "\<forall>y \<in> set ys. \<not> P y \<Longrightarrow> find P (xs @ ys) = find P xs"
  by (induction xs) (auto simp: find_None_iff)

lemma strictly_ascending_insert:
  "cmp_total c \<Longrightarrow> strictly_ascending c xs \<Longrightarrow> strictly_ascending c (list_insert c e xs)"
proof (induction xs)
  case Nil
  then show ?case by simp
next
  case (Cons x xs)
  have s: "set (list_insert c e xs) \<subseteq> insert e (set xs)"
    by (induction xs) auto
  show ?case
  proof (cases "c e x > 0")
    case True
    then have "c x e < 0" using cmp_gt_iff [OF Cons.prems(1)] by simp
    with Cons True s show ?thesis by auto
  next
    case False
    show ?thesis
    proof (cases "c e x < 0")
      case True
      with Cons.prems False show ?thesis
        by (auto intro: cmp_lt_trans [OF Cons.prems(1), of e x])
    next
      case False
      with \<open>\<not> c e x > 0\<close> have "c e x = 0" by simp
      with Cons.prems show ?thesis
        by (auto intro: cmp_eq_lt_trans [OF Cons.prems(1), of e x])
    qed
  qed
qed

lemma length_list_insert:
  "cmp_total c \<Longrightarrow> strictly_ascending c xs \<Longrightarrow>
     length (list_insert c e xs)
       = (if find (\<lambda>y. c e y = 0) xs = None then Suc (length xs) else length xs)"
proof (induction xs)
  case Nil
  then show ?case by simp
next
  case (Cons x xs)
  show ?case
  proof (cases "c e x < 0")
    case True
    have "\<forall>y \<in> set xs. c e y < 0"
      using Cons.prems True by (auto intro: cmp_lt_trans [OF Cons.prems(1), of e x])
    then have "find (\<lambda>y. c e y = 0) xs = None" by (auto simp: find_None_iff)
    with True show ?thesis by simp
  next
    case False
    with Cons show ?thesis by auto
  qed
qed

lemma set_list_insert:
  "cmp_total c \<Longrightarrow> strictly_ascending c xs \<Longrightarrow>
     set (list_insert c e xs) = insert e {y \<in> set xs. c e y \<noteq> 0}"
proof (induction xs)
  case Nil
  then show ?case by simp
next
  case (Cons x xs)
  show ?case
  proof (cases "c e x > 0")
    case True
    with Cons show ?thesis by auto
  next
    case False
    have "\<forall>y \<in> set xs. c e y < 0"
    proof
      fix y assume "y \<in> set xs"
      then have xy: "c x y < 0" using Cons.prems(2) by simp
      show "c e y < 0"
      proof (cases "c e x < 0")
        case True
        then show ?thesis using xy by (rule cmp_lt_trans [OF Cons.prems(1)])
      next
        case False
        with \<open>\<not> c e x > 0\<close> have "c e x = 0" by simp
        then show ?thesis using xy by (rule cmp_eq_lt_trans [OF Cons.prems(1)])
      qed
    qed
    with False show ?thesis by auto
  qed
qed


subsection \<open>The descent\<close>

lemma traverse_path_ok:
  "traverse c e t path = Some (Parent path') \<Longrightarrow> path_ok (black_height t) path
     \<Longrightarrow> no_red_red t \<Longrightarrow> black_balanced t
     \<Longrightarrow> (color_of t = RED \<longrightarrow> path \<noteq> [] \<and> black_above path)
     \<Longrightarrow> path_ok 0 path'"
proof (induction c e t path rule: traverse.induct)
  case (1 cmpfn elem path)
  then show ?case by simp
next
  case (2 cmpfn elem c l x r path)
  have down_r: "path_ok (black_height r) (WentRight c l x # path)"
    using "2.prems"(2-5) by (cases c) auto
  have down_l: "path_ok (black_height l) (WentLeft c x r # path)"
    using "2.prems"(2-5) by (cases c) auto
  have sub: "no_red_red l" "no_red_red r" "black_balanced l" "black_balanced r"
    "color_of r = RED \<longrightarrow> black_above (WentRight c l x # path)"
    "color_of l = RED \<longrightarrow> black_above (WentLeft c x r # path)"
    using "2.prems"(3,4) by auto
  show ?case
  proof (cases "cmpfn elem x > 0")
    case gt: True
    show ?thesis
    proof (cases r)
      case NIL
      with "2.prems"(1) gt down_r show ?thesis by auto
    next
      case (Node rc rl rx rr)
      with "2.prems"(1) gt have "traverse cmpfn elem r (WentRight c l x # path) = Some (Parent path')"
        by simp
      from "2.IH"(1) [OF refl gt Node this down_r sub(2,4)] sub(5) show ?thesis by simp
    qed
  next
    case ngt: False
    show ?thesis
    proof (cases "cmpfn elem x < 0")
      case lt: True
      show ?thesis
      proof (cases l)
        case NIL
        with "2.prems"(1) ngt lt down_l show ?thesis by auto
      next
        case (Node lc ll lx lr)
        with "2.prems"(1) ngt lt have
          "traverse cmpfn elem l (WentLeft c x r # path) = Some (Parent path')"
          by simp
        from "2.IH"(2) [OF refl ngt lt Node this down_l sub(1,3)] sub(6) show ?thesis by simp
      qed
    next
      case False
      with "2.prems"(1) ngt show ?thesis by simp
    qed
  qed
qed

lemma traverse_Equal_shape:
  "traverse c e t path = Some (Equal old root')
     \<Longrightarrow> \<exists>t'. root' = plug t' path \<and> color_of t' = color_of t
             \<and> black_height t' = black_height t
             \<and> (no_red_red t \<longrightarrow> no_red_red t') \<and> (black_balanced t \<longrightarrow> black_balanced t')"
proof (induction c e t path rule: traverse.induct)
  case (1 cmpfn elem path)
  then show ?case by simp
next
  case (2 cmpfn elem c l x r path)
  show ?case
  proof (cases "cmpfn elem x > 0")
    case gt: True
    show ?thesis
    proof (cases r)
      case NIL
      with "2.prems" gt show ?thesis by simp
    next
      case (Node rc rl rx rr)
      with "2.prems" gt have "traverse cmpfn elem r (WentRight c l x # path) = Some (Equal old root')"
        by simp
      from "2.IH"(1) [OF refl gt Node this] obtain t' where
        "root' = plug t' (WentRight c l x # path)" "color_of t' = color_of r"
        "black_height t' = black_height r" "no_red_red r \<longrightarrow> no_red_red t'"
        "black_balanced r \<longrightarrow> black_balanced t'" by blast
      then show ?thesis by (intro exI [of _ "Node c l x t'"]) auto
    qed
  next
    case ngt: False
    show ?thesis
    proof (cases "cmpfn elem x < 0")
      case lt: True
      show ?thesis
      proof (cases l)
        case NIL
        with "2.prems" ngt lt show ?thesis by simp
      next
        case (Node lc ll lx lr)
        with "2.prems" ngt lt have
          "traverse cmpfn elem l (WentLeft c x r # path) = Some (Equal old root')"
          by simp
        from "2.IH"(2) [OF refl ngt lt Node this] obtain t' where
          "root' = plug t' (WentLeft c x r # path)" "color_of t' = color_of l"
          "black_height t' = black_height l" "no_red_red l \<longrightarrow> no_red_red t'"
          "black_balanced l \<longrightarrow> black_balanced t'" by blast
        then show ?thesis by (intro exI [of _ "Node c t' x r"]) auto
      qed
    next
      case False
      with "2.prems" ngt show ?thesis by (intro exI [of _ "Node c l elem r"]) auto
    qed
  qed
qed

definition find_equal :: "'a cmp_fn \<Rightarrow> 'a \<Rightarrow> 'a list \<Rightarrow> 'a option" where
  "find_equal c e xs = find (\<lambda>y. c e y = 0) xs"

lemma traverse_spec:
  "cmp_total c \<Longrightarrow> strictly_ascending c (inorder t) \<Longrightarrow> t \<noteq> NIL \<Longrightarrow>
     (case traverse c e t path of
        None \<Rightarrow> False
      | Some (Equal old root') \<Rightarrow>
          find_equal c e (inorder t) = Some old
          \<and> inorder root' = lefts path @ list_insert c e (inorder t) @ rights path
      | Some (Parent path') \<Rightarrow>
          find_equal c e (inorder t) = None
          \<and> lefts path' @ e # rights path'
              = lefts path @ list_insert c e (inorder t) @ rights path)"
proof (induction c e t path rule: traverse.induct)
  case (1 cmpfn elem path)
  then show ?case by simp
next
  case (2 cmpfn elem c l x r path)
  note tot = "2.prems"(1)
  let ?xs = "inorder l" and ?ys = "inorder r"
  from "2.prems"(2) have sl: "strictly_ascending cmpfn ?xs" and sr: "strictly_ascending cmpfn ?ys"
    and lx: "\<forall>y \<in> set ?xs. cmpfn y x < 0" and xr: "\<forall>z \<in> set ?ys. cmpfn x z < 0"
    by (auto simp: sorted_wrt_append)
  show ?case
  proof (cases "cmpfn elem x > 0")
    case gt: True
    then have xe: "cmpfn x elem < 0" using cmp_gt_iff [OF tot] by simp
    have past: "\<forall>y \<in> set (?xs @ [x]). cmpfn elem y > 0"
    proof
      fix y assume "y \<in> set (?xs @ [x])"
      then have "y = x \<or> cmpfn y x < 0" using lx by auto
      then have "cmpfn y elem < 0" using xe cmp_lt_trans [OF tot, of y x elem] by auto
      then show "cmpfn elem y > 0" using cmp_gt_iff [OF tot] by simp
    qed
    have ins: "list_insert cmpfn elem (inorder (Node c l x r))
                 = ?xs @ x # list_insert cmpfn elem ?ys"
      using list_insert_past [of "?xs @ [x]" cmpfn elem ?ys] past by simp
    have "\<forall>y \<in> set (?xs @ [x]). \<not> cmpfn elem y = 0" using past by fastforce
    with find_past [of "?xs @ [x]" "\<lambda>y. cmpfn elem y = 0" ?ys]
    have fnd: "find_equal cmpfn elem (inorder (Node c l x r)) = find_equal cmpfn elem ?ys"
      by (simp add: find_equal_def)
    show ?thesis
    proof (cases r)
      case NIL
      with gt ins fnd show ?thesis by (simp add: find_equal_def)
    next
      case (Node rc rl rx rr)
      then have "r \<noteq> NIL" by simp
      from "2.IH"(1) [OF refl gt Node tot sr this] gt Node ins fnd show ?thesis
        by (simp split: option.splits traversal.splits)
    qed
  next
    case ngt: False
    show ?thesis
    proof (cases "cmpfn elem x < 0")
      case lt: True
      have after: "\<forall>z \<in> set (x # ?ys). \<not> cmpfn elem z = 0"
      proof
        fix z assume "z \<in> set (x # ?ys)"
        then have "z = x \<or> cmpfn x z < 0" using xr by auto
        then have "cmpfn elem z < 0" using lt cmp_lt_trans [OF tot, of elem x z] by auto
        then show "\<not> cmpfn elem z = 0" by simp
      qed
      have ins: "list_insert cmpfn elem (inorder (Node c l x r))
                   = list_insert cmpfn elem ?xs @ x # ?ys"
        using list_insert_before [of cmpfn elem x ?xs ?ys] lt by simp
      from find_before [of "x # ?ys" "\<lambda>y. cmpfn elem y = 0" ?xs] after
      have fnd: "find_equal cmpfn elem (inorder (Node c l x r)) = find_equal cmpfn elem ?xs"
        by (simp add: find_equal_def)
      show ?thesis
      proof (cases l)
        case NIL
        with ngt lt ins fnd show ?thesis by (simp add: find_equal_def)
      next
        case (Node lc ll lx lr)
        then have "l \<noteq> NIL" by simp
        from "2.IH"(2) [OF refl ngt lt Node tot sl this] ngt lt Node ins fnd show ?thesis
          by (simp split: option.splits traversal.splits)
      qed
    next
      case nlt: False
      with ngt have eq: "cmpfn elem x = 0" by simp
      then have xe: "cmpfn x elem = 0" by (rule cmp_eq_sym [OF tot])
      have past: "\<forall>y \<in> set ?xs. cmpfn elem y > 0"
      proof
        fix y assume "y \<in> set ?xs"
        then have "cmpfn y x < 0" using lx by simp
        then have "cmpfn y elem < 0" using xe by (rule cmp_lt_eq_trans [OF tot])
        then show "cmpfn elem y > 0" using cmp_gt_iff [OF tot] by simp
      qed
      have ins: "list_insert cmpfn elem (inorder (Node c l x r)) = ?xs @ elem # ?ys"
        using list_insert_past [of ?xs cmpfn elem "x # ?ys"] past eq by simp
      have "\<forall>y \<in> set ?xs. \<not> cmpfn elem y = 0" using past by fastforce
      with find_past [of ?xs "\<lambda>y. cmpfn elem y = 0" "x # ?ys"] eq
      have fnd: "find_equal cmpfn elem (inorder (Node c l x r)) = Some x"
        by (simp add: find_equal_def)
      from eq ins fnd show ?thesis by (simp add: inorder_plug)
    qed
  qed
qed

subsection \<open>What set_insert does\<close>

definition set_inv :: "'a set_t \<Rightarrow> bool" where
  "set_inv s \<longleftrightarrow>
     cmp_total (s_cmpfn s)
   \<and> strictly_ascending (s_cmpfn s) (inorder (s_root s))
   \<and> color_of (s_root s) = BLACK \<and> no_red_red (s_root s) \<and> black_balanced (s_root s)
   \<and> s_length s = length (inorder (s_root s))"

lemma set_inv_set_create: "cmp_total cmpfn \<Longrightarrow> set_inv (set_create cmpfn)"
  by (simp add: set_inv_def set_create_def)

lemma validate_rbtree_ok:
  "color_of (s_root s) = BLACK \<Longrightarrow> no_red_red (s_root s) \<Longrightarrow> black_balanced (s_root s)
     \<Longrightarrow> validate_rbtree s"
  using rec_validate_rbtree_ok [of "s_root s" 0 "- 1"]
  by (cases "s_root s") (auto simp: validate_rbtree_def)

lemma set_insert_spec:
  assumes "set_inv s"
  shows "\<exists>s'. set_insert s e = Some (find_equal (s_cmpfn s) e (inorder (s_root s)), s')
           \<and> inorder (s_root s') = list_insert (s_cmpfn s) e (inorder (s_root s))
           \<and> s_cmpfn s' = s_cmpfn s \<and> set_inv s'"
proof (cases "s_root s")
  case NIL
  with assms show ?thesis by (simp add: set_insert_def set_inv_def find_equal_def)
next
  case (Node c l x r)
  let ?c = "s_cmpfn s" and ?t = "s_root s"
  from assms have tot: "cmp_total ?c" and srt: "strictly_ascending ?c (inorder ?t)"
    and blk: "color_of ?t = BLACK" and nrr: "no_red_red ?t" and bal: "black_balanced ?t"
    and len: "s_length s = length (inorder ?t)"
    by (simp_all add: set_inv_def)
  have ne: "?t \<noteq> NIL" using Node by simp
  note spec = traverse_spec [OF tot srt ne, of e "[]"]
  note srt' = strictly_ascending_insert [OF tot srt, of e]
  note len' = length_list_insert [OF tot srt, of e]
  show ?thesis
  proof (cases "traverse ?c e ?t []")
    case None
    with spec show ?thesis by simp
  next
    case (Some res)
    show ?thesis
    proof (cases res)
      case (Equal old root')
      with Some spec have f: "find_equal ?c e (inorder ?t) = Some old"
        and i: "inorder root' = list_insert ?c e (inorder ?t)" by simp_all
      from traverse_Equal_shape [of ?c e ?t "[]" old root'] Some Equal blk nrr bal
      have sh: "color_of root' = BLACK" "no_red_red root'" "black_balanced root'" by auto
      have r: "set_insert s e = Some (Some old, s\<lparr>s_root := root'\<rparr>)"
        using Node Some Equal by (simp add: set_insert_def)
      have "set_inv (s\<lparr>s_root := root'\<rparr>)"
        using tot srt' sh len len' f i by (simp add: set_inv_def find_equal_def)
      with r f i show ?thesis by simp
    next
      case (Parent path)
      with Some spec have f: "find_equal ?c e (inorder ?t) = None"
        and i: "lefts path @ e # rights path = list_insert ?c e (inorder ?t)" by simp_all
      have "color_of ?t = RED \<longrightarrow> [] \<noteq> [] \<and> black_above []" using blk by simp
      with traverse_path_ok [of ?c e ?t "[]" path] Some Parent nrr bal
      have "path_ok 0 path" by simp
      then have "path_ok (black_height (Node RED NIL e NIL)) path" by simp
      from balance_loop_ok [OF this] obtain t where
        t: "balance_loop (Node RED NIL e NIL) path = Some t" "black_balanced t"
           "no_red_red (paint BLACK t)" "t \<noteq> NIL"
        by auto
      let ?s' = "s\<lparr>s_root := paint BLACK t, s_length := s_length s + 1\<rparr>"
      have it: "inorder (paint BLACK t) = list_insert ?c e (inorder ?t)"
        using inorder_balance_loop [OF t(1)] i by simp
      have cb: "color_of (paint BLACK t) = BLACK" by (cases t) simp_all
      have v: "validate_rbtree ?s'"
        using cb t(2,3) by (intro validate_rbtree_ok) (simp_all add: black_balanced_paint)
      have r: "set_insert s e = Some (None, ?s')"
        using Node Some Parent t(1) v by (simp add: set_insert_def post_insert_balance_def)
      have "set_inv ?s'"
        using tot srt' cb t(2,3) len len' f it
        by (simp add: set_inv_def find_equal_def black_balanced_paint)
      with r f it show ?thesis by simp
    qed
  qed
qed

section \<open>The hash map (src/adt/hashmap.c)\<close>

text \<open>
  \<^verbatim>\<open>struct map { cmp_fn cmpfn; hash64_fn hashfn; mnode_t **buckets; size_t capacity, length,
  rehash_threshold; }\<close>. \<open>buckets\<close> is an array of \<open>capacity\<close> chains; a chain is the
  list of the entries of its nodes, from the head along \<open>overflow\<close>. An entry is a key and
  a value. Sizes are naturals: the arithmetic on them cannot wrap before memory runs out.
  Allocation failure, on which the code panics, is not modelled.
\<close>

type_synonym ('k, 'v) entry_t = "'k \<times> 'v"

type_synonym 'k hash64_fn = "'k \<Rightarrow> 64 word"

record ('k, 'v) map_t =
  m_cmpfn :: "'k cmp_fn"
  m_hashfn :: "'k hash64_fn"
  m_buckets :: "('k, 'v) entry_t list list"
  m_capacity :: nat
  m_length :: nat
  m_rehash_threshold :: nat

definition N_BUCKETS_INITIAL :: nat where
  "N_BUCKETS_INITIAL = 16"

text \<open>
  \<^verbatim>\<open>calc_rehash_threshold\<close> is \<open>(size_t) ((double) capacity * 0.75)\<close>: three quarters of
  the capacity, rounded down.
\<close>

definition calc_rehash_threshold :: "nat \<Rightarrow> nat" where
  "calc_rehash_threshold capacity = (capacity * 3) div 4"

definition map_create :: "'k cmp_fn \<Rightarrow> 'k hash64_fn \<Rightarrow> ('k, 'v) map_t" where
  "map_create cmpfn hashfn =
     \<lparr>m_cmpfn = cmpfn, m_hashfn = hashfn, m_buckets = replicate N_BUCKETS_INITIAL [],
      m_capacity = N_BUCKETS_INITIAL, m_length = 0,
      m_rehash_threshold = calc_rehash_threshold N_BUCKETS_INITIAL\<rparr>"

definition map_length :: "('k, 'v) map_t \<Rightarrow> nat" where
  "map_length m = m_length m"

text \<open>
  \<^verbatim>\<open>map_resize(map, new_capacity)\<close> walks the old buckets in order and every chain from its
  head, and pushes each node on the front of its new chain. \<open>rehash\<close> is that walk over
  the nodes. The assertion \<open>n_i == map->length\<close> aborts when the count is off.
\<close>

fun rehash ::
  "'k hash64_fn \<Rightarrow> nat \<Rightarrow> ('k, 'v) entry_t list \<Rightarrow> ('k, 'v) entry_t list list
     \<Rightarrow> ('k, 'v) entry_t list list" where
  "rehash hashfn new_capacity [] new_buckets = new_buckets"
| "rehash hashfn new_capacity (entry # nodes) new_buckets =
     (let i_new = unat (hashfn (fst entry)) mod new_capacity
      in rehash hashfn new_capacity nodes
           (new_buckets[i_new := entry # new_buckets ! i_new]))"

definition map_resize :: "('k, 'v) map_t \<Rightarrow> nat \<Rightarrow> ('k, 'v) map_t option" where
  "map_resize m new_capacity =
     (let nodes = concat (take (m_capacity m) (m_buckets m)) in
      if new_capacity = 0 \<or> length (m_buckets m) < m_capacity m then None
      else if length nodes \<noteq> m_length m then None
      else Some (m\<lparr>m_buckets := rehash (m_hashfn m) new_capacity nodes (replicate new_capacity []),
                   m_capacity := new_capacity,
                   m_rehash_threshold := calc_rehash_threshold new_capacity\<rparr>))"

text \<open>
  The search of \<^verbatim>\<open>map_insert\<close> along a chain: at the first node whose key compares equal,
  the node's entry is swapped for the new one and the old entry is returned.
\<close>

fun chain_replace ::
  "'k cmp_fn \<Rightarrow> 'k \<Rightarrow> ('k, 'v) entry_t \<Rightarrow> ('k, 'v) entry_t list
     \<Rightarrow> (('k, 'v) entry_t \<times> ('k, 'v) entry_t list) option" where
  "chain_replace cmpfn key entry [] = None"
| "chain_replace cmpfn key entry (cur # overflow) =
     (if cmpfn key (fst cur) = 0 then Some (cur, entry # overflow)
      else case chain_replace cmpfn key entry overflow of
             None \<Rightarrow> None
           | Some (old_entry, overflow') \<Rightarrow> Some (old_entry, cur # overflow'))"

text \<open>
  \<^verbatim>\<open>map_insert(map, key, val)\<close> returns the old entry or \<open>NULL\<close>, and the map after the
  call. A key that is not found becomes the new head of its chain; if the chain was not
  empty and the length has reached the threshold, the map doubles its capacity.
\<close>

definition map_insert ::
  "('k, 'v) map_t \<Rightarrow> 'k \<Rightarrow> 'v \<Rightarrow> (('k, 'v) entry_t option \<times> ('k, 'v) map_t) option" where
  "map_insert m key val =
     (if m_capacity m = 0 then None
      else
        let entry = (key, val);
            bucket_i = unat (m_hashfn m key) mod m_capacity m
        in if length (m_buckets m) \<le> bucket_i then None
           else
             let head = m_buckets m ! bucket_i in
             case chain_replace (m_cmpfn m) key entry head of
               Some (old_entry, chain) \<Rightarrow>
                 Some (Some old_entry, m\<lparr>m_buckets := (m_buckets m)[bucket_i := chain]\<rparr>)
             | None \<Rightarrow>
                 let m' = m\<lparr>m_buckets := (m_buckets m)[bucket_i := entry # head],
                             m_length := m_length m + 1\<rparr>
                 in if head \<noteq> [] \<and> m_length m' \<ge> m_rehash_threshold m'
                    then (case map_resize m' (m_capacity m' * 2) of
                            None \<Rightarrow> None
                          | Some m'' \<Rightarrow> Some (None, m''))
                    else Some (None, m'))"

subsection \<open>What map_insert does\<close>

text \<open>
  \<open>map_ok\<close> is the invariant of a map: comparing equal is an equivalence that the hash
  function respects, every entry is in the chain of its hash, \<open>length\<close> counts the entries,
  and no two entries have keys that compare equal.
\<close>

definition m_entries :: "('k, 'v) map_t \<Rightarrow> ('k, 'v) entry_t list" where
  "m_entries m = concat (m_buckets m)"

definition key_equiv :: "'k cmp_fn \<Rightarrow> 'k hash64_fn \<Rightarrow> bool" where
  "key_equiv cmpfn hashfn \<longleftrightarrow>
     (\<forall>a. cmpfn a a = 0)
   \<and> (\<forall>a b. cmpfn a b = 0 \<longrightarrow> cmpfn b a = 0)
   \<and> (\<forall>a b c. cmpfn a b = 0 \<longrightarrow> cmpfn b c = 0 \<longrightarrow> cmpfn a c = 0)
   \<and> (\<forall>a b. cmpfn a b = 0 \<longrightarrow> hashfn a = hashfn b)"

definition unique_keys :: "'k cmp_fn \<Rightarrow> ('k, 'v) entry_t multiset \<Rightarrow> bool" where
  "unique_keys cmpfn M \<longleftrightarrow>
     (\<forall>e. count M e \<le> 1)
   \<and> (\<forall>e e'. e \<in># M \<longrightarrow> e' \<in># M \<longrightarrow> cmpfn (fst e) (fst e') = 0 \<longrightarrow> e = e')"

definition placed :: "'k hash64_fn \<Rightarrow> nat \<Rightarrow> ('k, 'v) entry_t list list \<Rightarrow> bool" where
  "placed hashfn capacity buckets \<longleftrightarrow>
     length buckets = capacity
   \<and> (\<forall>i < capacity. \<forall>e \<in> set (buckets ! i). unat (hashfn (fst e)) mod capacity = i)"

definition map_ok :: "('k, 'v) map_t \<Rightarrow> bool" where
  "map_ok m \<longleftrightarrow>
     key_equiv (m_cmpfn m) (m_hashfn m)
   \<and> 0 < m_capacity m
   \<and> placed (m_hashfn m) (m_capacity m) (m_buckets m)
   \<and> m_length m = length (m_entries m)
   \<and> unique_keys (m_cmpfn m) (mset (m_entries m))"

lemma mset_concat_update:
  "i < length bs \<Longrightarrow> mset (concat (bs[i := c])) + mset (bs ! i) = mset (concat bs) + mset c"
proof (induction bs arbitrary: i)
  case Nil
  then show ?case by simp
next
  case (Cons b bs)
  then show ?case by (cases i) (auto simp: ac_simps)
qed

lemma length_concat_update:
  "i < length bs \<Longrightarrow>
     length (concat (bs[i := c])) + length (bs ! i) = length (concat bs) + length c"
proof -
  assume "i < length bs"
  then have "size (mset (concat (bs[i := c])) + mset (bs ! i)) = size (mset (concat bs) + mset c)"
    by (simp only: mset_concat_update)
  then show ?thesis by simp
qed

lemma chain_replace_None:
  "chain_replace cmpfn key entry chain = None
     \<longleftrightarrow> (\<forall>e \<in> set chain. cmpfn key (fst e) \<noteq> 0)"
  by (induction chain) (auto split: option.splits)

lemma chain_replace_Some:
  "chain_replace cmpfn key entry chain = Some (old, chain')
     \<Longrightarrow> old \<in> set chain \<and> cmpfn key (fst old) = 0
         \<and> mset chain' + {#old#} = mset chain + {#entry#}
         \<and> set chain' \<subseteq> insert entry (set chain)"
proof (induction chain arbitrary: chain')
  case Nil
  then show ?case by simp
next
  case (Cons cur overflow)
  show ?case
  proof (cases "cmpfn key (fst cur) = 0")
    case True
    with Cons.prems show ?thesis by auto
  next
    case False
    with Cons.prems obtain ov' where
      r: "chain_replace cmpfn key entry overflow = Some (old, ov')" and c: "chain' = cur # ov'"
      by (auto split: option.splits)
    from Cons.IH [OF r] c show ?thesis by auto
  qed
qed

lemma placed_update:
  assumes "placed hashfn capacity buckets" and "i < capacity"
    and "\<forall>e \<in> set c. unat (hashfn (fst e)) mod capacity = i"
  shows "placed hashfn capacity (buckets[i := c])"
  using assms unfolding placed_def by (auto simp: nth_list_update)

lemma in_concat_nth: "e \<in> set (concat bs) \<longleftrightarrow> (\<exists>i < length bs. e \<in> set (bs ! i))"
  by (auto simp: in_set_conv_nth) (metis in_set_conv_nth)+

lemma rehash_placed:
  "0 < n \<Longrightarrow> placed hashfn n nb \<Longrightarrow>
     placed hashfn n (rehash hashfn n es nb)
     \<and> mset (concat (rehash hashfn n es nb)) = mset (concat nb) + mset es"
proof (induction es arbitrary: nb)
  case Nil
  then show ?case by simp
next
  case (Cons e es)
  let ?i = "unat (hashfn (fst e)) mod n"
  let ?nb = "nb[?i := e # nb ! ?i]"
  have i: "?i < n" using Cons.prems(1) by simp
  then have il: "?i < length nb" using Cons.prems(2) by (simp add: placed_def)
  have "\<forall>e' \<in> set (e # nb ! ?i). unat (hashfn (fst e')) mod n = ?i"
    using Cons.prems(2) i by (auto simp: placed_def)
  with Cons.prems(2) i have p: "placed hashfn n ?nb" by (rule placed_update)
  have "mset (concat ?nb) + mset (nb ! ?i) = mset (concat nb) + mset (e # nb ! ?i)"
    using il by (rule mset_concat_update)
  then have m: "mset (concat ?nb) = mset (concat nb) + {#e#}" by simp
  from Cons.IH [OF Cons.prems(1) p] m show ?case by (simp add: Let_def)
qed

lemma placed_replicate: "placed hashfn n (replicate n [])"
  by (simp add: placed_def)

lemma map_ok_map_create:
  "key_equiv cmpfn hashfn \<Longrightarrow> map_ok (map_create cmpfn hashfn)"
  by (simp add: map_ok_def map_create_def N_BUCKETS_INITIAL_def placed_replicate m_entries_def
        unique_keys_def)

lemma map_resize_ok:
  assumes "map_ok m" and "0 < n"
  shows "\<exists>m'. map_resize m n = Some m' \<and> m_length m' = m_length m
           \<and> mset (m_entries m') = mset (m_entries m) \<and> map_ok m'
           \<and> m_cmpfn m' = m_cmpfn m \<and> m_hashfn m' = m_hashfn m"
proof -
  from assms(1) have cap: "length (m_buckets m) = m_capacity m"
    and len: "m_length m = length (concat (m_buckets m))"
    by (simp_all add: map_ok_def placed_def m_entries_def)
  let ?nb = "rehash (m_hashfn m) n (concat (m_buckets m)) (replicate n [])"
  let ?m' = "m\<lparr>m_buckets := ?nb, m_capacity := n,
                m_rehash_threshold := calc_rehash_threshold n\<rparr>"
  have r: "map_resize m n = Some ?m'"
    using cap len assms(2) by (simp add: map_resize_def)
  from rehash_placed [OF assms(2) placed_replicate, of "m_hashfn m" "concat (m_buckets m)"]
  have p: "placed (m_hashfn m) n ?nb" and ms: "mset (concat ?nb) = mset (concat (m_buckets m))"
    by simp_all
  from ms have "length (concat ?nb) = length (concat (m_buckets m))"
    by (rule mset_eq_length)
  with assms p ms have "map_ok ?m'"
    by (simp add: map_ok_def m_entries_def)
  with r ms show ?thesis by (simp add: m_entries_def)
qed


lemma key_equiv_sym: "key_equiv c h \<Longrightarrow> c a b = 0 \<Longrightarrow> c b a = 0"
  unfolding key_equiv_def by blast

lemma key_equiv_trans: "key_equiv c h \<Longrightarrow> c a b = 0 \<Longrightarrow> c b d = 0 \<Longrightarrow> c a d = 0"
  unfolding key_equiv_def by blast

lemma key_equiv_refl: "key_equiv c h \<Longrightarrow> c a a = 0"
  unfolding key_equiv_def by blast

lemma key_equiv_hash: "key_equiv c h \<Longrightarrow> c a b = 0 \<Longrightarrow> h a = h b"
  unfolding key_equiv_def by blast

lemma unique_keys_add:
  assumes ke: "key_equiv c h" and u: "unique_keys c M" and n: "\<forall>e \<in># M. c k (fst e) \<noteq> 0"
  shows "unique_keys c (add_mset (k, v) M)"
proof -
  have "(k, v) \<notin># M" using n key_equiv_refl [OF ke, of k] by fastforce
  then have c0: "count M (k, v) = 0" by (simp add: not_in_iff)
  have 1: "\<forall>e. count (add_mset (k, v) M) e \<le> 1"
    using u c0 by (auto simp: unique_keys_def)
  have 2: "\<forall>e e'. e \<in># add_mset (k, v) M \<longrightarrow> e' \<in># add_mset (k, v) M
             \<longrightarrow> c (fst e) (fst e') = 0 \<longrightarrow> e = e'"
  proof (intro allI impI)
    fix e e' assume e: "e \<in># add_mset (k, v) M" and e': "e' \<in># add_mset (k, v) M"
      and eq: "c (fst e) (fst e') = 0"
    show "e = e'"
    proof (cases "e = (k, v)")
      case True
      with eq n e' show ?thesis by auto
    next
      case False
      with e have eM: "e \<in># M" by simp
      show ?thesis
      proof (cases "e' = (k, v)")
        case True
        with eq have "c k (fst e) = 0" using key_equiv_sym [OF ke, of "fst e" k] by simp
        with n eM show ?thesis by blast
      next
        case False
        with e' have "e' \<in># M" by simp
        with u eM eq show ?thesis unfolding unique_keys_def by blast
      qed
    qed
  qed
  from 1 2 show ?thesis unfolding unique_keys_def by blast
qed

lemma unique_keys_replace:
  assumes ke: "key_equiv c h" and u: "unique_keys c M" and o: "old \<in># M"
    and k: "c k (fst old) = 0"
  shows "unique_keys c (add_mset (k, v) (M - {#old#}))"
proof -
  let ?N = "M - {#old#}"
  have c1: "\<forall>e. count M e \<le> 1" and inj: "\<And>e e'. e \<in># M \<Longrightarrow> e' \<in># M
      \<Longrightarrow> c (fst e) (fst e') = 0 \<Longrightarrow> e = e'"
    using u unfolding unique_keys_def by blast+
  have "count M old \<le> 1" using c1 by blast
  moreover have "0 < count M old" using o by simp
  ultimately have "count M old = 1" by linarith
  then have oN: "old \<notin># ?N" by (simp add: in_diff_count)
  have sub: "\<And>e. e \<in># ?N \<Longrightarrow> e \<in># M" by (rule in_diffD)
  have uN: "unique_keys c ?N"
    unfolding unique_keys_def
  proof (intro conjI allI impI)
    fix e show "count ?N e \<le> 1" using c1 [rule_format, of e] by simp
  next
    fix e e' assume "e \<in># ?N" "e' \<in># ?N" "c (fst e) (fst e') = 0"
    then show "e = e'" using inj sub by blast
  qed
  have "\<forall>e \<in># ?N. c k (fst e) \<noteq> 0"
  proof
    fix e assume e: "e \<in># ?N"
    show "c k (fst e) \<noteq> 0"
    proof
      assume "c k (fst e) = 0"
      with k have "c (fst old) (fst e) = 0"
        using key_equiv_sym [OF ke k] key_equiv_trans [OF ke, of "fst old" k "fst e"] by simp
      with inj [OF o sub [OF e]] have "old = e" by simp
      with e oN show False by simp
    qed
  qed
  with ke uN show ?thesis by (rule unique_keys_add)
qed

lemma map_insert_absent:
  assumes ok: "map_ok m" and ab: "\<forall>e \<in> set (m_entries m). m_cmpfn m key (fst e) \<noteq> 0"
  shows "\<exists>m'. map_insert m key val = Some (None, m') \<and> m_length m' = m_length m + 1
           \<and> mset (m_entries m') = add_mset (key, val) (mset (m_entries m)) \<and> map_ok m'
           \<and> m_cmpfn m' = m_cmpfn m \<and> m_hashfn m' = m_hashfn m"
proof -
  let ?bs = "m_buckets m" and ?i = "unat (m_hashfn m key) mod m_capacity m"
  from ok have ke: "key_equiv (m_cmpfn m) (m_hashfn m)" and cap: "0 < m_capacity m"
    and pl: "placed (m_hashfn m) (m_capacity m) ?bs"
    and len: "m_length m = length (concat ?bs)"
    and uk: "unique_keys (m_cmpfn m) (mset (concat ?bs))"
    by (simp_all add: map_ok_def m_entries_def)
  have i: "?i < m_capacity m" using cap by simp
  then have il: "?i < length ?bs" using pl by (simp add: placed_def)
  let ?head = "?bs ! ?i"
  have "set ?head \<subseteq> set (concat ?bs)" using nth_mem [OF il] by auto
  with ab have "\<forall>e \<in> set ?head. m_cmpfn m key (fst e) \<noteq> 0" by (auto simp: m_entries_def)
  then have cr: "chain_replace (m_cmpfn m) key (key, val) ?head = None"
    by (simp add: chain_replace_None)
  let ?m1 = "m\<lparr>m_buckets := ?bs[?i := (key, val) # ?head], m_length := m_length m + 1\<rparr>"
  have ms: "mset (concat (?bs[?i := (key, val) # ?head])) = add_mset (key, val) (mset (concat ?bs))"
    using mset_concat_update [OF il, of "(key, val) # ?head"] by simp
  then have ln: "length (concat (?bs[?i := (key, val) # ?head])) = Suc (length (concat ?bs))"
  proof -
    have "size (mset (concat (?bs[?i := (key, val) # ?head])))
            = size (add_mset (key, val) (mset (concat ?bs)))"
      by (simp only: ms)
    then show ?thesis by simp
  qed
  have "\<forall>e \<in> set ((key, val) # ?head). unat (m_hashfn m (fst e)) mod m_capacity m = ?i"
    using pl i by (auto simp: placed_def)
  with pl i have pl1: "placed (m_hashfn m) (m_capacity m) (?bs[?i := (key, val) # ?head])"
    by (rule placed_update)
  have "\<forall>e \<in># mset (concat ?bs). m_cmpfn m key (fst e) \<noteq> 0"
    using ab by (simp add: m_entries_def)
  with ke uk have uk1: "unique_keys (m_cmpfn m) (add_mset (key, val) (mset (concat ?bs)))"
    by (rule unique_keys_add)
  have ok1: "map_ok ?m1"
    using ke cap pl1 len ln uk1 ms by (simp add: map_ok_def m_entries_def)
  have e1: "mset (m_entries ?m1) = add_mset (key, val) (mset (m_entries m))"
    using ms by (simp add: m_entries_def)
  show ?thesis
  proof (cases "?head \<noteq> [] \<and> m_length ?m1 \<ge> m_rehash_threshold ?m1")
    case False
    then have "map_insert m key val = Some (None, ?m1)"
      using cap il cr by (auto simp: map_insert_def Let_def)
    with ok1 e1 show ?thesis by simp
  next
    case True
    have "0 < m_capacity ?m1 * 2" using cap by simp
    from map_resize_ok [OF ok1 this] obtain m2 where
      m2: "map_resize ?m1 (m_capacity ?m1 * 2) = Some m2" "m_length m2 = m_length ?m1"
        "mset (m_entries m2) = mset (m_entries ?m1)" "map_ok m2"
        "m_cmpfn m2 = m_cmpfn ?m1" "m_hashfn m2 = m_hashfn ?m1" by blast
    from True m2(1) have "map_insert m key val = Some (None, m2)"
      using cap il cr by (auto simp: map_insert_def Let_def)
    with m2 e1 show ?thesis by simp
  qed
qed

lemma map_insert_present:
  assumes ok: "map_ok m" and old: "old \<in> set (m_entries m)"
    and eq: "m_cmpfn m key (fst old) = 0"
  shows "\<exists>m'. map_insert m key val = Some (Some old, m') \<and> m_length m' = m_length m
           \<and> mset (m_entries m') = add_mset (key, val) (mset (m_entries m) - {#old#})
           \<and> map_ok m' \<and> m_cmpfn m' = m_cmpfn m \<and> m_hashfn m' = m_hashfn m"
proof -
  let ?bs = "m_buckets m" and ?i = "unat (m_hashfn m key) mod m_capacity m"
  from ok have ke: "key_equiv (m_cmpfn m) (m_hashfn m)" and cap: "0 < m_capacity m"
    and pl: "placed (m_hashfn m) (m_capacity m) ?bs"
    and len: "m_length m = length (concat ?bs)"
    and uk: "unique_keys (m_cmpfn m) (mset (concat ?bs))"
    by (simp_all add: map_ok_def m_entries_def)
  have i: "?i < m_capacity m" using cap by simp
  then have il: "?i < length ?bs" using pl by (simp add: placed_def)
  let ?head = "?bs ! ?i"
  have sub: "set ?head \<subseteq> set (concat ?bs)" using nth_mem [OF il] by auto
  from old have "\<exists>j < length ?bs. old \<in> set (?bs ! j)"
    by (simp only: m_entries_def in_concat_nth)
  then obtain j where j: "j < length ?bs" "old \<in> set (?bs ! j)" by blast
  with pl have "unat (m_hashfn m (fst old)) mod m_capacity m = j" by (auto simp: placed_def)
  moreover have "m_hashfn m key = m_hashfn m (fst old)" using ke eq by (rule key_equiv_hash)
  ultimately have "j = ?i" by simp
  with j have oh: "old \<in> set ?head" by simp
  with eq have "chain_replace (m_cmpfn m) key (key, val) ?head \<noteq> None"
    by (auto simp: chain_replace_None)
  then obtain old' chain where cr: "chain_replace (m_cmpfn m) key (key, val) ?head = Some (old', chain)"
    by auto
  note crs = chain_replace_Some [OF cr]
  have "m_cmpfn m (fst old) (fst old') = 0"
    using key_equiv_trans [OF ke key_equiv_sym [OF ke eq], of "fst old'"] crs by simp
  moreover have "old \<in># mset (concat ?bs)" "old' \<in># mset (concat ?bs)"
    using oh crs sub by auto
  ultimately have same: "old' = old" using uk unfolding unique_keys_def by blast
  let ?m1 = "m\<lparr>m_buckets := ?bs[?i := chain]\<rparr>"
  have r: "map_insert m key val = Some (Some old, ?m1)"
    using cap il cr same by (simp add: map_insert_def Let_def)
  let ?A = "mset (concat (?bs[?i := chain]))" and ?M = "mset (concat ?bs)"
  have e1: "?A + mset ?head = ?M + mset chain"
    using il by (rule mset_concat_update)
  have e2: "mset chain + {#old#} = mset ?head + {#(key, val)#}" using crs same by simp
  have "(?A + {#old#}) + mset ?head = (?A + mset ?head) + {#old#}" by simp
  also have "\<dots> = (?M + mset chain) + {#old#}" by (simp only: e1)
  also have "\<dots> = ?M + (mset chain + {#old#})" by simp
  also have "\<dots> = ?M + (mset ?head + {#(key, val)#})" by (simp only: e2)
  also have "\<dots> = (?M + {#(key, val)#}) + mset ?head" by simp
  finally have e3: "?A + {#old#} = ?M + {#(key, val)#}" by simp
  have oM: "old \<in># ?M" using oh sub by auto
  then have "?M = add_mset old (?M - {#old#})" by simp
  with e3 have "add_mset old ?A = add_mset old (add_mset (key, val) (?M - {#old#}))"
    by simp
  then have ms: "?A = add_mset (key, val) (?M - {#old#})" by simp
  from e3 have "size (?A + {#old#}) = size (?M + {#(key, val)#})" by (rule arg_cong)
  then have ln: "length (concat (?bs[?i := chain])) = length (concat ?bs)" by simp
  have "\<forall>e \<in> set chain. unat (m_hashfn m (fst e)) mod m_capacity m = ?i"
  proof
    fix e assume "e \<in> set chain"
    then have "e = (key, val) \<or> e \<in> set ?head" using crs by auto
    then show "unat (m_hashfn m (fst e)) mod m_capacity m = ?i"
      using pl i by (auto simp: placed_def)
  qed
  with pl i have pl1: "placed (m_hashfn m) (m_capacity m) (?bs[?i := chain])"
    by (rule placed_update)
  have uk1: "unique_keys (m_cmpfn m) (add_mset (key, val) (mset (concat ?bs) - {#old#}))"
    using ke uk oM eq by (rule unique_keys_replace)
  have "map_ok ?m1"
    using ke cap pl1 len ln uk1 ms by (simp add: map_ok_def m_entries_def)
  with r ms len ln show ?thesis by (simp add: m_entries_def)
qed


section \<open>Insertion returns what it replaces\<close>

lemma equal_unique:
  "cmp_total c \<Longrightarrow> strictly_ascending c xs \<Longrightarrow> a \<in> set xs \<Longrightarrow> b \<in> set xs
     \<Longrightarrow> c e a = 0 \<Longrightarrow> c e b = 0 \<Longrightarrow> a = b"
proof (induction xs)
  case Nil
  then show ?case by simp
next
  case (Cons x xs)
  have no: "y \<in> set xs \<Longrightarrow> c e x = 0 \<Longrightarrow> c e y \<noteq> 0" for y
  proof -
    assume "y \<in> set xs" and ex: "c e x = 0"
    then have "c x y < 0" using Cons.prems(2) by simp
    with ex have "c e y < 0" by (rule cmp_eq_lt_trans [OF Cons.prems(1)])
    then show ?thesis by simp
  qed
  show ?case
  proof (cases "a = x")
    case True
    with Cons.prems no [of b] show ?thesis by auto
  next
    case False
    show ?thesis
    proof (cases "b = x")
      case True
      with Cons.prems no [of a] show ?thesis by auto
    next
      case bx: False
      with False Cons show ?thesis by auto
    qed
  qed
qed

lemma find_equal_None: "find_equal c e xs = None \<longleftrightarrow> (\<forall>y \<in> set xs. c e y \<noteq> 0)"
  by (auto simp: find_equal_def find_None_iff)

lemma find_equal_Some:
  assumes "cmp_total c" and "strictly_ascending c xs" and "old \<in> set xs" and "c e old = 0"
  shows "find_equal c e xs = Some old"
proof (cases "find_equal c e xs")
  case None
  with assms(3,4) show ?thesis by (simp add: find_equal_None)
next
  case (Some y)
  then have "y \<in> set xs" "c e y = 0"
    by (auto simp: find_equal_def find_Some_iff)
  with equal_unique [OF assms(1,2) this(1) assms(3) this(2) assms(4)] Some show ?thesis by simp
qed

text \<open>
  C7: on a set and a map that satisfy their invariants, set_insert and map_insert return
  NULL (\<open>None\<close>) when no element or key comparing equal to the new one is present, and the
  container then has one element more; when an element \<open>old\<close> comparing equal is present,
  they return \<open>old\<close>, the container holds the new element or entry in its place, and its
  length is the same. The invariants hold again after the call.
\<close>

theorem insert_returns_previous:
  assumes "set_inv s" and "map_ok m"
  shows "((\<forall>y \<in> set (inorder (s_root s)). s_cmpfn s elem y \<noteq> 0) \<longrightarrow>
            (\<exists>s'. set_insert s elem = Some (None, s') \<and> set_length s' = set_length s + 1
                 \<and> set (inorder (s_root s')) = insert elem (set (inorder (s_root s)))
                 \<and> set_inv s' \<and> s_cmpfn s' = s_cmpfn s))
       \<and> (\<forall>old \<in> set (inorder (s_root s)). s_cmpfn s elem old = 0 \<longrightarrow>
            (\<exists>s'. set_insert s elem = Some (Some old, s') \<and> set_length s' = set_length s
                 \<and> set (inorder (s_root s')) = insert elem (set (inorder (s_root s)) - {old})
                 \<and> set_inv s' \<and> s_cmpfn s' = s_cmpfn s))
       \<and> ((\<forall>e \<in> set (m_entries m). m_cmpfn m key (fst e) \<noteq> 0) \<longrightarrow>
            (\<exists>m'. map_insert m key val = Some (None, m') \<and> map_length m' = map_length m + 1
                 \<and> mset (m_entries m') = add_mset (key, val) (mset (m_entries m))
                 \<and> map_ok m' \<and> m_cmpfn m' = m_cmpfn m \<and> m_hashfn m' = m_hashfn m))
       \<and> (\<forall>old \<in> set (m_entries m). m_cmpfn m key (fst old) = 0 \<longrightarrow>
            (\<exists>m'. map_insert m key val = Some (Some old, m') \<and> map_length m' = map_length m
                 \<and> mset (m_entries m') = add_mset (key, val) (mset (m_entries m) - {#old#})
                 \<and> map_ok m' \<and> m_cmpfn m' = m_cmpfn m \<and> m_hashfn m' = m_hashfn m))"
proof -
  let ?c = "s_cmpfn s" and ?xs = "inorder (s_root s)"
  from assms(1) have tot: "cmp_total ?c" and srt: "strictly_ascending ?c ?xs"
    and len: "s_length s = length ?xs"
    by (simp_all add: set_inv_def)
  from set_insert_spec [OF assms(1), of elem] obtain s' where
    r: "set_insert s elem = Some (find_equal ?c elem ?xs, s')"
    and i: "inorder (s_root s') = list_insert ?c elem ?xs"
    and c: "s_cmpfn s' = ?c" and inv: "set_inv s'"
    by blast
  from inv have len': "s_length s' = length (list_insert ?c elem ?xs)"
    by (simp add: set_inv_def i)
  note ll = length_list_insert [OF tot srt, of elem]
  note sl = set_list_insert [OF tot srt, of elem]
  have 1: "(\<forall>y \<in> set ?xs. ?c elem y \<noteq> 0) \<longrightarrow>
            (\<exists>s'. set_insert s elem = Some (None, s') \<and> set_length s' = set_length s + 1
                 \<and> set (inorder (s_root s')) = insert elem (set ?xs)
                 \<and> set_inv s' \<and> s_cmpfn s' = ?c)"
  proof
    assume a: "\<forall>y \<in> set ?xs. ?c elem y \<noteq> 0"
    then have f: "find_equal ?c elem ?xs = None" by (simp add: find_equal_None)
    have "{y \<in> set ?xs. ?c elem y \<noteq> 0} = set ?xs" using a by auto
    with r i c inv len len' ll sl f show
      "\<exists>s'. set_insert s elem = Some (None, s') \<and> set_length s' = set_length s + 1
                 \<and> set (inorder (s_root s')) = insert elem (set ?xs)
                 \<and> set_inv s' \<and> s_cmpfn s' = ?c"
      by (auto simp: set_length_def find_equal_def)
  qed
  have 2: "\<forall>old \<in> set ?xs. ?c elem old = 0 \<longrightarrow>
            (\<exists>s'. set_insert s elem = Some (Some old, s') \<and> set_length s' = set_length s
                 \<and> set (inorder (s_root s')) = insert elem (set ?xs - {old})
                 \<and> set_inv s' \<and> s_cmpfn s' = ?c)"
  proof (intro ballI impI)
    fix old assume o: "old \<in> set ?xs" and e: "?c elem old = 0"
    from find_equal_Some [OF tot srt o e] have f: "find_equal ?c elem ?xs = Some old" .
    have "{y \<in> set ?xs. ?c elem y \<noteq> 0} = set ?xs - {old}"
      using equal_unique [OF tot srt _ o _ e] e by auto
    with r i c inv len len' ll sl f show
      "\<exists>s'. set_insert s elem = Some (Some old, s') \<and> set_length s' = set_length s
                 \<and> set (inorder (s_root s')) = insert elem (set ?xs - {old})
                 \<and> set_inv s' \<and> s_cmpfn s' = ?c"
      by (auto simp: set_length_def find_equal_def)
  qed
  have 3: "(\<forall>e \<in> set (m_entries m). m_cmpfn m key (fst e) \<noteq> 0) \<longrightarrow>
            (\<exists>m'. map_insert m key val = Some (None, m') \<and> map_length m' = map_length m + 1
                 \<and> mset (m_entries m') = add_mset (key, val) (mset (m_entries m))
                 \<and> map_ok m' \<and> m_cmpfn m' = m_cmpfn m \<and> m_hashfn m' = m_hashfn m)"
    using map_insert_absent [OF assms(2), of key val] by (simp add: map_length_def)
  have 4: "\<forall>old \<in> set (m_entries m). m_cmpfn m key (fst old) = 0 \<longrightarrow>
            (\<exists>m'. map_insert m key val = Some (Some old, m') \<and> map_length m' = map_length m
                 \<and> mset (m_entries m') = add_mset (key, val) (mset (m_entries m) - {#old#})
                 \<and> map_ok m' \<and> m_cmpfn m' = m_cmpfn m \<and> m_hashfn m' = m_hashfn m)"
    using map_insert_present [OF assms(2), of _ key val] by (simp add: map_length_def)
  from 1 2 3 4 show ?thesis by blast
qed

theorem insert_returns_previous_witness:
  "set_inv (set_create (\<lambda>a b :: int \<times> int. fst a - fst b))
   \<and> map_ok (map_create (\<lambda>a b :: int. a - b) (\<lambda>k. word_of_int k) :: (int, int) map_t)
   \<and> (\<exists>s' s''. set_insert (set_create (\<lambda>a b :: int \<times> int. fst a - fst b)) (1, 10)
                  = Some (None, s')
              \<and> set_insert s' (1, 20) = Some (Some (1, 10), s'') \<and> set_length s'' = 1)
   \<and> (\<exists>m' m''. map_insert
                  (map_create (\<lambda>a b :: int. a - b) (\<lambda>k. word_of_int k) :: (int, int) map_t)
                  1 10 = Some (None, m')
              \<and> map_insert m' 1 20 = Some (Some (1, 10), m'') \<and> map_length m'' = 1)"
proof -
  let ?c = "\<lambda>a b :: int \<times> int. fst a - fst b"
  let ?s = "set_create ?c"
  let ?m = "map_create (\<lambda>a b :: int. a - b) (\<lambda>k. word_of_int k) :: (int, int) map_t"
  have si: "set_inv ?s" by (rule set_inv_set_create) (simp add: cmp_total_def)
  have mo: "map_ok ?m" by (rule map_ok_map_create) (simp add: key_equiv_def)
  note t1 = insert_returns_previous [OF si mo, of "(1, 10)" 1 10]
  from t1 obtain s' where s': "set_insert ?s (1, 10) = Some (None, s')"
    "set_length s' = set_length ?s + 1" "set (inorder (s_root s')) = {(1, 10)}"
    "set_inv s'" "s_cmpfn s' = ?c"
    by (auto simp: set_create_def)
  from t1 obtain m' where m': "map_insert ?m 1 10 = Some (None, m')"
    "map_length m' = map_length ?m + 1" "mset (m_entries m') = {#(1, 10)#}"
    "map_ok m'" "m_cmpfn m' = (\<lambda>a b. a - b)"
    by (auto simp: map_create_def m_entries_def)
  have em: "set (m_entries m') = {(1, 10)}"
    using arg_cong [OF m'(3), of set_mset] by simp
  note t2 = insert_returns_previous [OF s'(4) m'(4), of "(1, 20)" 1 20]
  from t2 s'(3,5) obtain s'' where s'': "set_insert s' (1, 20) = Some (Some (1, 10), s'')"
    "set_length s'' = set_length s'"
    by auto
  from t2 em m'(5) obtain m'' where m'': "map_insert m' 1 20 = Some (Some (1, 10), m'')"
    "map_length m'' = map_length m'"
    by auto
  have "set_length s'' = 1" using s''(2) s'(2) by (simp add: set_length_def set_create_def)
  moreover have "map_length m'' = 1"
    using m''(2) m'(2) by (simp add: map_length_def map_create_def)
  ultimately show ?thesis using si mo s'(1) s''(1) m'(1) m''(1) by blast
qed

section \<open>Union, intersection and difference of sets (src/adt/rbtreeset.c)\<close>














subsection \<open>Sequences of insertions\<close>

text \<open>
  \<open>inserts\<close> is a sequence of calls of \<^verbatim>\<open>set_insert\<close> on one set. \<open>elements\<close> are the
  stored pointers, and a set \<open>contains\<close> an element when it stores one that compares equal.
\<close>

fun inserts :: "'a set_t \<Rightarrow> 'a list \<Rightarrow> 'a set_t option" where
  "inserts s [] = Some s"
| "inserts s (x # xs) =
     (case set_insert s x of None \<Rightarrow> None | Some (replaced, s') \<Rightarrow> inserts s' xs)"

definition contains :: "'a set_t \<Rightarrow> 'a \<Rightarrow> bool" where
  "contains s x \<longleftrightarrow> (\<exists>y \<in> set (inorder (s_root s)). s_cmpfn s x y = 0)"

definition elements :: "'a set_t \<Rightarrow> 'a set" where
  "elements s = set (inorder (s_root s))"


lemma cmp_refl: "cmp_total c \<Longrightarrow> c a a = 0"
proof -
  assume "cmp_total c"
  then have "(c a a < 0) = (c a a > 0)" unfolding cmp_total_def by blast
  then show ?thesis by (cases "c a a < 0") simp_all
qed

lemma cmp_eq_trans: "cmp_total c \<Longrightarrow> c a b = 0 \<Longrightarrow> c b d = 0 \<Longrightarrow> c a d = 0"
proof -
  assume t: "cmp_total c" and 1: "c a b = 0" and 2: "c b d = 0"
  have "c a d \<le> 0" using cmp_total_trans [OF t, of a b d] 1 2 by simp
  moreover have "c d a \<le> 0"
    using cmp_total_trans [OF t, of d b a] cmp_eq_sym [OF t 1] cmp_eq_sym [OF t 2] by simp
  ultimately show ?thesis using cmp_gt_iff [OF t, of d a] by (cases "c a d < 0") simp_all
qed

lemma set_insert_contains:
  assumes "set_inv s"
  shows "\<exists>s'. set_insert s e = Some (find_equal (s_cmpfn s) e (inorder (s_root s)), s')
           \<and> set_inv s' \<and> s_cmpfn s' = s_cmpfn s
           \<and> elements s' \<subseteq> insert e (elements s)
           \<and> (\<forall>z. contains s' z \<longleftrightarrow> s_cmpfn s z e = 0 \<or> contains s z)"
proof -
  let ?c = "s_cmpfn s" and ?xs = "inorder (s_root s)"
  from assms have tot: "cmp_total ?c" and srt: "strictly_ascending ?c ?xs"
    by (simp_all add: set_inv_def)
  from set_insert_spec [OF assms, of e] obtain s' where
    r: "set_insert s e = Some (find_equal ?c e ?xs, s')"
    and i: "inorder (s_root s') = list_insert ?c e ?xs"
    and c: "s_cmpfn s' = ?c" and inv: "set_inv s'"
    by blast
  note sl = set_list_insert [OF tot srt, of e]
  have el: "elements s' = insert e {y \<in> set ?xs. ?c e y \<noteq> 0}"
    by (simp add: elements_def i sl)
  have "contains s' z \<longleftrightarrow> ?c z e = 0 \<or> contains s z" for z
  proof
    assume "contains s' z"
    then obtain y where y: "y = e \<or> y \<in> set ?xs" "?c z y = 0"
      using el by (auto simp: contains_def c elements_def)
    then show "?c z e = 0 \<or> contains s z" by (auto simp: contains_def)
  next
    assume a: "?c z e = 0 \<or> contains s z"
    show "contains s' z"
    proof (cases "?c z e = 0")
      case True
      then show ?thesis using el by (auto simp: contains_def c elements_def)
    next
      case False
      with a obtain y where y: "y \<in> set ?xs" "?c z y = 0" by (auto simp: contains_def)
      have "?c e y \<noteq> 0"
      proof
        assume "?c e y = 0"
        then have "?c y e = 0" by (rule cmp_eq_sym [OF tot])
        with y(2) have "?c z e = 0" by (rule cmp_eq_trans [OF tot])
        with False show False by simp
      qed
      with y el show ?thesis by (auto simp: contains_def c elements_def)
    qed
  qed
  then have ct: "\<forall>z. contains s' z \<longleftrightarrow> ?c z e = 0 \<or> contains s z" by blast
  have sub: "elements s' \<subseteq> insert e (elements s)"
    unfolding el by (auto simp: elements_def)
  from r inv c sub ct show ?thesis by blast
qed



subsection \<open>Searching\<close>



lemma contains_cong:
  assumes "cmp_total (s_cmpfn s)" and "s_cmpfn s z x = 0"
  shows "contains s x = contains s z"
proof
  assume "contains s x"
  then obtain y where "y \<in> set (inorder (s_root s))" "s_cmpfn s x y = 0"
    by (auto simp: contains_def)
  with cmp_eq_trans [OF assms(1) assms(2) this(2)] show "contains s z"
    by (auto simp: contains_def)
next
  assume "contains s z"
  then obtain y where "y \<in> set (inorder (s_root s))" "s_cmpfn s z y = 0"
    by (auto simp: contains_def)
  with cmp_eq_trans [OF assms(1) cmp_eq_sym [OF assms(1) assms(2)] this(2)]
  show "contains s x" by (auto simp: contains_def)
qed

lemma contains_element:
  "cmp_total (s_cmpfn s) \<Longrightarrow> x \<in> elements s \<Longrightarrow> contains s x"
  using cmp_refl [of "s_cmpfn s" x] by (auto simp: contains_def elements_def)

subsection \<open>The recursions as sequences of insertions\<close>











subsection \<open>Union, intersection and difference\<close>










section \<open>Iteration over a set (src/adt/rbtreeset.c)\<close>

text \<open>
  The iterator is a Morris traversal: it finds its way back up by writing into the tree,
  pointing the \<open>right\<close> pointer of a node's in-order predecessor at the node and resetting
  it later. That depends on which node a pointer refers to, so here the nodes live in a
  heap: a node is the struct \<^verbatim>\<open>tnode\<close> at an address, with the addresses of its parent
  and children, and \<open>elem\<close> is \<open>None\<close> for a null pointer. Address 0 is the sentinel
  \<open>NIL\<close>.
\<close>

record 'a tnode_mem =
  n_color :: tnode_color
  n_elem :: "'a option"
  n_parent :: nat
  n_left :: nat
  n_right :: nat

type_synonym 'a heap = "nat \<Rightarrow> 'a tnode_mem"

abbreviation NILp :: nat where
  "NILp \<equiv> 0"

text \<open>
  The inner loop of \<^verbatim>\<open>next_node_inorder\<close>:
  \<^verbatim>\<open>while (pre->right != NIL && pre->right != next) pre = pre->right;\<close> It need not
  terminate on an arbitrary heap; \<open>None\<close> is not returning.
\<close>

partial_function (option) find_pre :: "'a heap \<Rightarrow> nat \<Rightarrow> nat \<Rightarrow> nat option" where
  "find_pre h nxt pre =
     (if n_right (h pre) \<noteq> NILp \<and> n_right (h pre) \<noteq> nxt
      then find_pre h nxt (n_right (h pre))
      else Some pre)"

text \<open>
  The outer loop \<^verbatim>\<open>while (next != NIL)\<close>, started by \<^verbatim>\<open>next_node_inorder\<close> at
  \<open>iter->head\<close>. It returns the node to visit, the heap, and the new \<open>iter->head\<close>.
\<close>

partial_function (option) next_node_inorder_loop ::
  "'a heap \<Rightarrow> nat \<Rightarrow> nat \<Rightarrow> (nat \<times> 'a heap \<times> nat) option" where
  "next_node_inorder_loop h head nxt =
     (if nxt = NILp then Some (NILp, h, head)
      else if n_left (h nxt) = NILp then Some (nxt, h, n_right (h nxt))
      else case find_pre h nxt (n_left (h nxt)) of
             None \<Rightarrow> None
           | Some pre \<Rightarrow>
               if n_right (h pre) = NILp
               then next_node_inorder_loop (h(pre := (h pre)\<lparr>n_right := nxt\<rparr>)) head
                      (n_left (h nxt))
               else Some (nxt, h(pre := (h pre)\<lparr>n_right := NILp\<rparr>),
                          n_right ((h(pre := (h pre)\<lparr>n_right := NILp\<rparr>)) nxt)))"

definition next_node_inorder :: "'a heap \<Rightarrow> nat \<Rightarrow> (nat \<times> 'a heap \<times> nat) option" where
  "next_node_inorder h head = next_node_inorder_loop h head head"

text \<open>
  An iterator is its \<open>head\<close>; \<open>iter->set\<close> is never read. \<^verbatim>\<open>set_createiter\<close> starts at the
  root, \<^verbatim>\<open>set_hasnext\<close> tests \<open>head\<close> against \<open>NIL\<close>, and \<^verbatim>\<open>set_next\<close> returns the
  \<open>elem\<close> of the node found. \<open>set_iterate\<close> is the loop of a caller,
  \<^verbatim>\<open>while (set_hasnext(iter)) set_next(iter)\<close>, which collects what \<^verbatim>\<open>set_next\<close> returns.
\<close>

definition set_createiter :: "nat \<Rightarrow> nat" where
  "set_createiter root = root"

definition set_hasnext :: "nat \<Rightarrow> bool" where
  "set_hasnext head \<longleftrightarrow> head \<noteq> NILp"

definition set_next :: "'a heap \<Rightarrow> nat \<Rightarrow> ('a option \<times> 'a heap \<times> nat) option" where
  "set_next h head =
     (case next_node_inorder h head of
        None \<Rightarrow> None
      | Some (cur, h', head') \<Rightarrow> Some (n_elem (h' cur), h', head'))"

partial_function (option) set_iterate ::
  "'a heap \<Rightarrow> nat \<Rightarrow> ('a option list \<times> 'a heap) option" where
  "set_iterate h head =
     (if set_hasnext head then
        (case set_next h head of
           None \<Rightarrow> None
         | Some (e, h', head') \<Rightarrow>
             Option.bind (set_iterate h' head') (\<lambda>(es, h''). Some (e # es, h'')))
      else Some ([], h))"

subsection \<open>The traversal visits the elements in order\<close>

text \<open>
  \<open>tree_at h p t ret\<close>: in the heap \<open>h\<close> the nodes from address \<open>p\<close> form the tree \<open>t\<close>,
  where the \<open>right\<close> pointer of the last node is \<open>ret\<close>: \<open>NIL\<close> in a tree at rest, the
  address of the successor while the traversal has a thread installed. Colours and parent
  pointers are not read by the iterator. \<open>addrs\<close> are the addresses of the nodes, and
  \<open>rightmost\<close> is the address of the last one.
\<close>

fun tree_at :: "'a heap \<Rightarrow> nat \<Rightarrow> 'a tnode \<Rightarrow> nat \<Rightarrow> bool" where
  "tree_at h p NIL ret \<longleftrightarrow> p = ret"
| "tree_at h p (Node c l x r) ret \<longleftrightarrow>
     p \<noteq> NILp \<and> n_elem (h p) = Some x
     \<and> tree_at h (n_left (h p)) l NILp \<and> tree_at h (n_right (h p)) r ret"

fun addrs :: "'a heap \<Rightarrow> nat \<Rightarrow> 'a tnode \<Rightarrow> nat list" where
  "addrs h p NIL = []"
| "addrs h p (Node c l x r) = addrs h (n_left (h p)) l @ p # addrs h (n_right (h p)) r"

fun rightmost :: "'a heap \<Rightarrow> nat \<Rightarrow> 'a tnode \<Rightarrow> nat" where
  "rightmost h p NIL = p"
| "rightmost h p (Node c l x r) =
     (case r of NIL \<Rightarrow> p | Node rc rl rx rr \<Rightarrow> rightmost h (n_right (h p)) r)"

text \<open>
  \<open>from_loop\<close> is a complete iteration that starts inside \<^verbatim>\<open>next_node_inorder\<close>, with the
  loop at \<open>nxt\<close>.
\<close>

definition prepend ::
  "'a option list \<Rightarrow> ('a option list \<times> 'a heap) option \<Rightarrow> ('a option list \<times> 'a heap) option" where
  "prepend xs res = Option.bind res (\<lambda>(es, h). Some (xs @ es, h))"

definition from_loop :: "'a heap \<Rightarrow> nat \<Rightarrow> nat \<Rightarrow> ('a option list \<times> 'a heap) option" where
  "from_loop h head nxt =
     (case next_node_inorder_loop h head nxt of
        None \<Rightarrow> None
      | Some (cur, h', head') \<Rightarrow> prepend [n_elem (h' cur)] (set_iterate h' head'))"

lemma prepend_prepend: "prepend xs (prepend ys res) = prepend (xs @ ys) res"
  by (cases res) (auto simp: prepend_def)

lemma prepend_Some: "prepend xs (Some (es, h)) = Some (xs @ es, h)"
  by (simp add: prepend_def)

lemma set_iterate_NIL: "set_iterate h NILp = Some ([], h)"
  by (subst set_iterate.simps) (simp add: set_hasnext_def)

lemma set_iterate_from_loop: "p \<noteq> NILp \<Longrightarrow> set_iterate h p = from_loop h p p"
  by (subst set_iterate.simps)
     (auto simp: set_hasnext_def set_next_def next_node_inorder_def from_loop_def prepend_def
        split: option.splits)

lemma addrs_nonzero: "tree_at h p t ret \<Longrightarrow> NILp \<notin> set (addrs h p t)"
  by (induction t arbitrary: p ret) auto

lemma frame:
  "\<forall>a \<in> set (addrs h p t). h' a = h a
     \<Longrightarrow> tree_at h' p t ret = tree_at h p t ret \<and> addrs h' p t = addrs h p t"
proof (induction t arbitrary: p ret)
  case NIL
  then show ?case by simp
next
  case (Node c l x r)
  have hp: "h' p = h p" using Node.prems by simp
  have "\<forall>a \<in> set (addrs h (n_left (h p)) l). h' a = h a"
    "\<forall>a \<in> set (addrs h (n_right (h p)) r). h' a = h a"
    using Node.prems by simp_all
  from Node.IH(1) [OF this(1)] Node.IH(2) [OF this(2)] hp show ?case by simp
qed

lemma rightmost_last: "rightmost h p (Node c l x NIL) = p"
  by simp

lemma rightmost_right:
  "r \<noteq> NIL \<Longrightarrow> rightmost h p (Node c l x r) = rightmost h (n_right (h p)) r"
  by (cases r) simp_all

lemma rightmost_in_addrs: "t \<noteq> NIL \<Longrightarrow> rightmost h p t \<in> set (addrs h p t)"
proof (induction t arbitrary: p)
  case NIL
  then show ?case by simp
next
  case (Node c l x r)
  show ?case
  proof (cases "r = NIL")
    case True
    then show ?thesis by simp
  next
    case False
    from Node.IH(2) [OF False, of "n_right (h p)"] False show ?thesis
      by (simp add: rightmost_right del: rightmost.simps)
  qed
qed

lemma find_pre_rightmost:
  "tree_at h q t ret \<Longrightarrow> t \<noteq> NIL \<Longrightarrow> nxt \<notin> set (addrs h q t) \<Longrightarrow> ret = NILp \<or> ret = nxt
     \<Longrightarrow> find_pre h nxt q = Some (rightmost h q t) \<and> n_right (h (rightmost h q t)) = ret"
proof (induction t arbitrary: q)
  case NIL
  then show ?case by simp
next
  case (Node c l x r)
  show ?case
  proof (cases "r = NIL")
    case True
    with Node.prems show ?thesis by (subst find_pre.simps) auto
  next
    case False
    from Node.prems have r: "tree_at h (n_right (h q)) r ret"
      "nxt \<notin> set (addrs h (n_right (h q)) r)"
      by auto
    have nz: "n_right (h q) \<noteq> NILp" "n_right (h q) \<noteq> nxt"
      using r False by (cases r; auto)+
    from Node.IH(2) [OF r(1) False r(2) Node.prems(4)]
    have "find_pre h nxt (n_right (h q)) = Some (rightmost h (n_right (h q)) r)
        \<and> n_right (h (rightmost h (n_right (h q)) r)) = ret" .
    with nz False show ?thesis
      by (subst find_pre.simps) (simp add: rightmost_right del: rightmost.simps)
  qed
qed

lemma thread_rightmost:
  "tree_at h q t ret \<Longrightarrow> t \<noteq> NIL \<Longrightarrow> distinct (addrs h q t)
     \<Longrightarrow> tree_at (h(rightmost h q t := (h (rightmost h q t))\<lparr>n_right := ret'\<rparr>)) q t ret'
         \<and> addrs (h(rightmost h q t := (h (rightmost h q t))\<lparr>n_right := ret'\<rparr>)) q t
             = addrs h q t"
proof (induction t arbitrary: q)
  case NIL
  then show ?case by simp
next
  case (Node c l x r)
  show ?case
  proof (cases "r = NIL")
    case True
    let ?h' = "h(q := (h q)\<lparr>n_right := ret'\<rparr>)"
    have "\<forall>a \<in> set (addrs h (n_left (h q)) l). ?h' a = h a" using Node.prems(3) by auto
    with frame [of h "n_left (h q)" l ?h' NILp]
    have fl: "tree_at ?h' (n_left (h q)) l NILp = tree_at h (n_left (h q)) l NILp"
      "addrs ?h' (n_left (h q)) l = addrs h (n_left (h q)) l"
      by blast+
    with Node.prems True show ?thesis by (simp add: fun_upd_def)
  next
    case False
    let ?pre = "rightmost h (n_right (h q)) r"
    let ?h' = "h(?pre := (h ?pre)\<lparr>n_right := ret'\<rparr>)"
    have pre: "?pre \<in> set (addrs h (n_right (h q)) r)" using False by (rule rightmost_in_addrs)
    with Node.prems(3) have ne: "?pre \<noteq> q" "?pre \<notin> set (addrs h (n_left (h q)) l)" by auto
    then have "\<forall>a \<in> set (addrs h (n_left (h q)) l). ?h' a = h a" by auto
    with frame [of h "n_left (h q)" l ?h' NILp]
    have fl: "tree_at ?h' (n_left (h q)) l NILp = tree_at h (n_left (h q)) l NILp"
      "addrs ?h' (n_left (h q)) l = addrs h (n_left (h q)) l"
      by blast+
    from Node.prems have "tree_at h (n_right (h q)) r ret" "distinct (addrs h (n_right (h q)) r)"
      by simp_all
    from Node.IH(2) [OF this(1) False this(2)] have r:
      "tree_at ?h' (n_right (h q)) r ret'" "addrs ?h' (n_right (h q)) r = addrs h (n_right (h q)) r"
      by blast+
    have hq: "?h' q = h q" using ne(1) by simp
    have "tree_at ?h' q (Node c l x r) ret' \<and> addrs ?h' q (Node c l x r) = addrs h q (Node c l x r)"
      using fl r hq Node.prems(1) by (simp add: fun_upd_def)
    then show ?thesis using False by (simp only: rightmost_right [OF False])
  qed
qed


lemma rightmost_frame:
  "\<forall>a \<in> set (addrs h p t). a \<noteq> rightmost h p t \<longrightarrow> h' a = h a
     \<Longrightarrow> t \<noteq> NIL \<Longrightarrow> distinct (addrs h p t) \<Longrightarrow> rightmost h' p t = rightmost h p t"
proof (induction t arbitrary: p)
  case NIL
  then show ?case by simp
next
  case (Node c l x r)
  show ?case
  proof (cases "r = NIL")
    case True
    then show ?thesis by simp
  next
    case False
    let ?pre = "rightmost h (n_right (h p)) r"
    have pre: "?pre \<in> set (addrs h (n_right (h p)) r)" using False by (rule rightmost_in_addrs)
    with Node.prems(3) have "?pre \<noteq> p" by auto
    with Node.prems(1) False have hp: "h' p = h p"
      by (simp add: rightmost_right del: rightmost.simps)
    have "\<forall>a \<in> set (addrs h (n_right (h p)) r). a \<noteq> ?pre \<longrightarrow> h' a = h a"
      using Node.prems(1) False by (simp add: rightmost_right del: rightmost.simps)
    from Node.IH(2) [OF this False] Node.prems(3)
    have "rightmost h' (n_right (h p)) r = ?pre" by simp
    with hp False show ?thesis by (simp add: rightmost_right del: rightmost.simps)
  qed
qed

lemma restore_right: "n_right m = v \<Longrightarrow> m\<lparr>n_right := v\<rparr> = m"
  by (cases m) auto

lemma morris_subtree:
  "tree_at h p t ret \<Longrightarrow> t \<noteq> NIL \<Longrightarrow> distinct (addrs h p t) \<Longrightarrow> ret \<notin> set (addrs h p t)
     \<Longrightarrow> from_loop h head p = prepend (map Some (inorder t)) (set_iterate h ret)"
proof (induction t arbitrary: h p ret head)
  case NIL
  then show ?case by simp
next
  case (Node c l x r)
  let ?lp = "n_left (h p)" and ?rp = "n_right (h p)"
  from Node.prems(1) have p0: "p \<noteq> NILp" and ex: "n_elem (h p) = Some x"
    and tl: "tree_at h ?lp l NILp" and tr: "tree_at h ?rp r ret"
    by simp_all
  from Node.prems(3) have dl: "distinct (addrs h ?lp l)" and dr: "distinct (addrs h ?rp r)"
    and pl: "p \<notin> set (addrs h ?lp l)"
    by simp_all
  from Node.prems(4) have rr: "ret \<notin> set (addrs h ?rp r)" by simp
  have R: "prepend [Some x] (set_iterate h ?rp)
             = prepend (Some x # map Some (inorder r)) (set_iterate h ret)"
  proof (cases "r = NIL")
    case True
    with tr show ?thesis by simp
  next
    case False
    with tr have "?rp \<noteq> NILp" by (cases r) auto
    then have "set_iterate h ?rp = from_loop h ?rp ?rp" by (rule set_iterate_from_loop)
    also have "\<dots> = prepend (map Some (inorder r)) (set_iterate h ret)"
      using tr False dr rr by (rule Node.IH(2))
    finally show ?thesis by (simp add: prepend_prepend)
  qed
  show ?case
  proof (cases "l = NIL")
    case True
    with tl have l0: "?lp = NILp" by simp
    have "next_node_inorder_loop h head p = Some (p, h, ?rp)"
      using p0 l0 by (subst next_node_inorder_loop.simps) simp
    then have "from_loop h head p = prepend [Some x] (set_iterate h ?rp)"
      by (simp add: from_loop_def ex)
    with R True show ?thesis by simp
  next
    case False
    with tl have l0: "?lp \<noteq> NILp" by (cases l) auto
    let ?pre = "rightmost h ?lp l"
    let ?h1 = "h(?pre := (h ?pre)\<lparr>n_right := p\<rparr>)"
    have fp: "find_pre h p ?lp = Some ?pre" and pr0: "n_right (h ?pre) = NILp"
      using find_pre_rightmost [OF tl False pl] by simp_all
    have pre_in: "?pre \<in> set (addrs h ?lp l)" using False by (rule rightmost_in_addrs)
    with pl have pre_ne: "?pre \<noteq> p" by auto
    have step1: "next_node_inorder_loop h head p = next_node_inorder_loop ?h1 head ?lp"
      using p0 l0 fp pr0 by (subst next_node_inorder_loop.simps) simp
    from thread_rightmost [OF tl False dl, of p] have
      tl1: "tree_at ?h1 ?lp l p" and al1: "addrs ?h1 ?lp l = addrs h ?lp l"
      by blast+
    have dl1: "distinct (addrs ?h1 ?lp l)" and pl1: "p \<notin> set (addrs ?h1 ?lp l)"
      using dl pl al1 by simp_all
    have "from_loop h head p = from_loop ?h1 head ?lp"
      by (simp add: from_loop_def step1)
    also have "\<dots> = prepend (map Some (inorder l)) (set_iterate ?h1 p)"
      using tl1 False dl1 pl1 by (rule Node.IH(1))
    finally have first: "from_loop h head p = prepend (map Some (inorder l)) (set_iterate ?h1 p)" .
    have h1p: "?h1 p = h p" using pre_ne by simp
    have "\<forall>a \<in> set (addrs h ?lp l). a \<noteq> ?pre \<longrightarrow> ?h1 a = h a" by simp
    from rightmost_frame [OF this False dl] have rm1: "rightmost ?h1 ?lp l = ?pre" .
    have fp1: "find_pre ?h1 p ?lp = Some ?pre" and pr1: "n_right (?h1 ?pre) = p"
      using find_pre_rightmost [OF tl1 False pl1] rm1 by simp_all
    have restored: "(?h1)(?pre := (?h1 ?pre)\<lparr>n_right := NILp\<rparr>) = h"
    proof -
      have "(h ?pre)\<lparr>n_right := NILp\<rparr> = h ?pre" using pr0 by (rule restore_right)
      then show ?thesis by simp
    qed
    have "next_node_inorder_loop ?h1 p p = Some (p, h, ?rp)"
      using p0 l0 h1p fp1 pr1 restored by (subst next_node_inorder_loop.simps) simp
    then have "from_loop ?h1 p p = prepend [Some x] (set_iterate h ?rp)"
      by (simp add: from_loop_def ex)
    with set_iterate_from_loop [OF p0, of ?h1] R
    have "set_iterate ?h1 p = prepend (Some x # map Some (inorder r)) (set_iterate h ret)"
      by simp
    with first show ?thesis by (simp add: prepend_prepend)
  qed
qed

lemma set_iterate_inorder:
  assumes "tree_at h p t NILp" and "distinct (addrs h p t)"
  shows "set_iterate h (set_createiter p) = Some (map Some (inorder t), h)"
proof (cases "t = NIL")
  case True
  with assms(1) show ?thesis by (simp add: set_createiter_def set_iterate_NIL)
next
  case False
  with assms(1) have p0: "p \<noteq> NILp" by (cases t) auto
  have "NILp \<notin> set (addrs h p t)" using assms(1) by (rule addrs_nonzero)
  from morris_subtree [OF assms(1) False assms(2) this, of p]
  show ?thesis
    by (simp add: set_createiter_def set_iterate_from_loop [OF p0] set_iterate_NIL prepend_Some)
qed

subsection \<open>Counting the distinct elements\<close>

text \<open>
  The number of distinct elements of a sequence: an element counts when it compares equal
  to none before it.
\<close>

fun n_distinct_from :: "'a cmp_fn \<Rightarrow> 'a list \<Rightarrow> 'a list \<Rightarrow> nat" where
  "n_distinct_from c seen [] = 0"
| "n_distinct_from c seen (x # xs) =
     (if \<exists>y \<in> set seen. c x y = 0 then n_distinct_from c seen xs
      else Suc (n_distinct_from c (x # seen) xs))"

definition n_distinct :: "'a cmp_fn \<Rightarrow> 'a list \<Rightarrow> nat" where
  "n_distinct c xs = n_distinct_from c [] xs"

lemma set_insert_length:
  assumes "set_inv s"
  shows "\<exists>r s'. set_insert s e = Some (r, s') \<and> set_inv s' \<and> s_cmpfn s' = s_cmpfn s
           \<and> s_length s' = (if contains s e then s_length s else Suc (s_length s))
           \<and> (\<forall>z. contains s' z \<longleftrightarrow> s_cmpfn s z e = 0 \<or> contains s z)"
proof -
  let ?c = "s_cmpfn s" and ?xs = "inorder (s_root s)"
  from assms have tot: "cmp_total ?c" and srt: "strictly_ascending ?c ?xs"
    and len: "s_length s = length ?xs"
    by (simp_all add: set_inv_def)
  from set_insert_spec [OF assms, of e] obtain s' where
    r: "set_insert s e = Some (find_equal ?c e ?xs, s')"
    and i: "inorder (s_root s') = list_insert ?c e ?xs"
    and inv: "set_inv s'"
    by blast
  from set_insert_contains [OF assms, of e] r have
    c: "s_cmpfn s' = ?c" and ct: "\<forall>z. contains s' z \<longleftrightarrow> ?c z e = 0 \<or> contains s z"
    by auto
  have "contains s e \<longleftrightarrow> find_equal ?c e ?xs \<noteq> None"
    by (simp add: find_equal_None contains_def)
  moreover have "s_length s' = length (list_insert ?c e ?xs)"
    using inv i by (simp add: set_inv_def)
  ultimately have "s_length s' = (if contains s e then s_length s else Suc (s_length s))"
    using length_list_insert [OF tot srt, of e] len by (simp add: find_equal_def)
  with r inv c ct show ?thesis by blast
qed

lemma inserts_length:
  "set_inv s \<Longrightarrow> \<forall>z. contains s z \<longleftrightarrow> (\<exists>y \<in> set seen. s_cmpfn s z y = 0)
     \<Longrightarrow> \<exists>s'. inserts s xs = Some s' \<and> set_inv s' \<and> s_cmpfn s' = s_cmpfn s
           \<and> s_length s' = s_length s + n_distinct_from (s_cmpfn s) seen xs"
proof (induction xs arbitrary: s seen)
  case Nil
  then show ?case by simp
next
  case (Cons x xs)
  from set_insert_length [OF Cons.prems(1), of x] obtain r s1 where
    s1: "set_insert s x = Some (r, s1)" "set_inv s1" "s_cmpfn s1 = s_cmpfn s"
      "s_length s1 = (if contains s x then s_length s else Suc (s_length s))"
      "\<forall>z. contains s1 z \<longleftrightarrow> s_cmpfn s z x = 0 \<or> contains s z"
    by blast
  show ?case
  proof (cases "contains s x")
    case True
    from Cons.prems(1) have tot: "cmp_total (s_cmpfn s)" by (simp add: set_inv_def)
    have "\<forall>z. contains s1 z \<longleftrightarrow> (\<exists>y \<in> set seen. s_cmpfn s1 z y = 0)"
    proof
      fix z
      have "s_cmpfn s z x = 0 \<Longrightarrow> contains s z"
        using contains_cong [OF tot, of z x] True by simp
      then show "contains s1 z \<longleftrightarrow> (\<exists>y \<in> set seen. s_cmpfn s1 z y = 0)"
        using s1(3,5) Cons.prems(2) by auto
    qed
    from Cons.IH [OF s1(2) this] obtain s' where
      "inserts s1 xs = Some s'" "set_inv s'" "s_cmpfn s' = s_cmpfn s1"
      "s_length s' = s_length s1 + n_distinct_from (s_cmpfn s1) seen xs"
      by blast
    moreover have "\<exists>y \<in> set seen. s_cmpfn s x y = 0" using True Cons.prems(2) by simp
    ultimately show ?thesis using s1(1,3,4) True by simp
  next
    case False
    have "\<forall>z. contains s1 z \<longleftrightarrow> (\<exists>y \<in> set (x # seen). s_cmpfn s1 z y = 0)"
      using s1(3,5) Cons.prems(2) by auto
    from Cons.IH [OF s1(2) this] obtain s' where
      "inserts s1 xs = Some s'" "set_inv s'" "s_cmpfn s' = s_cmpfn s1"
      "s_length s' = s_length s1 + n_distinct_from (s_cmpfn s1) (x # seen) xs"
      by blast
    moreover have "\<not> (\<exists>y \<in> set seen. s_cmpfn s x y = 0)" using False Cons.prems(2) by simp
    ultimately show ?thesis using s1(1,3,4) False by simp
  qed
qed

text \<open>
  C8: with a total comparison function, every sequence of set_insert calls on a new set
  returns, and afterwards the elements are strictly ascending from left to right (so no two
  of them compare equal), set_length is the number of distinct elements inserted, and on
  every heap that holds the tree at distinct addresses a complete iteration with
  set_createiter, set_hasnext and set_next terminates, yields exactly these elements in
  that strictly ascending order, and leaves the heap as it was.
\<close>

theorem inserts_keep_set_invariant:
  assumes "cmp_total cmpfn"
  shows "\<exists>s. inserts (set_create cmpfn) xs = Some s
           \<and> sorted_wrt (\<lambda>a b. cmpfn a b < 0) (inorder (s_root s))
           \<and> set_length s = n_distinct cmpfn xs
           \<and> (\<forall>h p. tree_at h p (s_root s) NILp \<and> distinct (addrs h p (s_root s)) \<longrightarrow>
                 set_iterate h (set_createiter p) = Some (map Some (inorder (s_root s)), h))"
proof -
  let ?s0 = "set_create cmpfn"
  have i0: "set_inv ?s0" using assms by (rule set_inv_set_create)
  have "\<forall>z. contains ?s0 z \<longleftrightarrow> (\<exists>y \<in> set []. s_cmpfn ?s0 z y = 0)"
    by (simp add: contains_def set_create_def)
  from inserts_length [OF i0 this, of xs] obtain s where
    s: "inserts ?s0 xs = Some s" "set_inv s" "s_cmpfn s = s_cmpfn ?s0"
      "s_length s = s_length ?s0 + n_distinct_from (s_cmpfn ?s0) [] xs"
    by blast
  have srt: "sorted_wrt (\<lambda>a b. cmpfn a b < 0) (inorder (s_root s))"
    using s(2,3) by (simp add: set_inv_def set_create_def)
  have len: "set_length s = n_distinct cmpfn xs"
    using s(4) by (simp add: set_length_def n_distinct_def set_create_def)
  have "\<forall>h p. tree_at h p (s_root s) NILp \<and> distinct (addrs h p (s_root s)) \<longrightarrow>
          set_iterate h (set_createiter p) = Some (map Some (inorder (s_root s)), h)"
    using set_iterate_inorder by blast
  with s(1) srt len show ?thesis by blast
qed


theorem inserts_keep_set_invariant_witness:
  "cmp_total (\<lambda>a b :: int. a - b)
   \<and> inserts (set_create (\<lambda>a b :: int. a - b)) [2, 1, 3, 2]
       = Some \<lparr>s_root = Node BLACK (Node RED NIL 1 NIL) 2 (Node RED NIL 3 NIL),
               s_cmpfn = (\<lambda>a b. a - b), s_length = 3\<rparr>
   \<and> n_distinct (\<lambda>a b :: int. a - b) [2, 1, 3, 2] = 3
   \<and> set_iterate
        ((\<lambda>a. \<lparr>n_color = BLACK, n_elem = None, n_parent = 0, n_left = 0, n_right = 0\<rparr>)
          (1 := \<lparr>n_color = BLACK, n_elem = Some 2, n_parent = 0, n_left = 2, n_right = 3\<rparr>,
           2 := \<lparr>n_color = RED, n_elem = Some 1, n_parent = 1, n_left = 0, n_right = 0\<rparr>,
           3 := \<lparr>n_color = RED, n_elem = Some 3, n_parent = 1, n_left = 0, n_right = 0\<rparr>))
        (set_createiter 1)
       = Some ([Some 1, Some 2, Some (3 :: int)],
           (\<lambda>a. \<lparr>n_color = BLACK, n_elem = None, n_parent = 0, n_left = 0, n_right = 0\<rparr>)
             (1 := \<lparr>n_color = BLACK, n_elem = Some 2, n_parent = 0, n_left = 2, n_right = 3\<rparr>,
              2 := \<lparr>n_color = RED, n_elem = Some 1, n_parent = 1, n_left = 0, n_right = 0\<rparr>,
              3 := \<lparr>n_color = RED, n_elem = Some 3, n_parent = 1, n_left = 0, n_right = 0\<rparr>))"
proof -
  let ?c = "\<lambda>a b :: int. a - b"
  let ?t = "Node BLACK (Node RED NIL 1 NIL) 2 (Node RED NIL (3 :: int) NIL)"
  let ?h = "(\<lambda>a. \<lparr>n_color = BLACK, n_elem = None, n_parent = 0, n_left = 0, n_right = 0\<rparr>)
          (1 := \<lparr>n_color = BLACK, n_elem = Some 2, n_parent = 0, n_left = 2, n_right = 3\<rparr>,
           2 := \<lparr>n_color = RED, n_elem = Some 1, n_parent = 1, n_left = 0, n_right = 0\<rparr>,
           3 := \<lparr>n_color = RED, n_elem = Some (3 :: int), n_parent = 1, n_left = 0,
                  n_right = 0\<rparr>)"
  have tot: "cmp_total ?c" by (rule cmp_total_int)
  have ev: "inserts (set_create ?c) [2, 1, 3, 2]
      = Some \<lparr>s_root = ?t, s_cmpfn = ?c, s_length = 3\<rparr>"
    by (simp add: set_create_def set_insert_def post_insert_balance_def validate_rbtree_def
          Let_def)
  have nd: "n_distinct ?c [2, 1, 3, 2] = 3" by (simp add: n_distinct_def)
  have ta: "tree_at ?h 1 ?t NILp" and di: "distinct (addrs ?h 1 ?t)" by simp_all
  from inserts_keep_set_invariant [OF tot, of "[2, 1, 3, 2]"] ev
  have "\<forall>h p. tree_at h p ?t NILp \<and> distinct (addrs h p ?t) \<longrightarrow>
          set_iterate h (set_createiter p) = Some (map Some (inorder ?t), h)"
    by simp
  with ta di have "set_iterate ?h (set_createiter 1) = Some (map Some (inorder ?t), ?h)"
    by blast
  then have "set_iterate ?h (set_createiter 1) = Some ([Some 1, Some 2, Some 3], ?h)"
    by simp
  with tot ev nd show ?thesis by blast
qed

end
